theory Spec2Isabelle
  imports Main
begin

section \<open>Python values, exceptions and the operations the script applies to them\<close>

text \<open>
  The script works on the value that \<^verbatim>\<open>response.json()\<close> returns: a tree of
  \<^verbatim>\<open>None\<close>, booleans, numbers, strings, lists and dictionaries. A dictionary is an
  association list in insertion order whose first binding of a key is the one in
  effect. \<open>JInt\<close> stands for every number: the script never computes with a number it
  receives, it only tests it for truth, and a float behaves there like an integer.
\<close>

datatype json =
    JNull
  | JBool bool
  | JInt int
  | JStr string
  | JList "json list"
  | JObj "(string \<times> json) list"

text \<open>
  The exceptions that the modelled statements can raise. All of them are subclasses of
  \<^verbatim>\<open>Exception\<close>; \<open>RequestException\<close> is the class that the first handler of each
  fetch loop names.
\<close>

datatype exn =
    RequestException
  | KeyError
  | TypeError
  | AttributeError
  | IndexError
  | ValueError
  | ZeroDivisionError

definition ebind :: "exn + 'a \<Rightarrow> ('a \<Rightarrow> exn + 'b) \<Rightarrow> exn + 'b" where
  "ebind m f = (case m of Inl e \<Rightarrow> Inl e | Inr x \<Rightarrow> f x)"

text \<open>Truth value of a Python object, as \<^verbatim>\<open>if x\<close> and \<^verbatim>\<open>not x\<close> take it.\<close>

fun py_truthy :: "json \<Rightarrow> bool" where
  "py_truthy JNull = False"
| "py_truthy (JBool b) = b"
| "py_truthy (JInt i) = (i \<noteq> 0)"
| "py_truthy (JStr s) = (s \<noteq> [])"
| "py_truthy (JList xs) = (xs \<noteq> [])"
| "py_truthy (JObj kvs) = (kvs \<noteq> [])"

fun is_substr :: "string \<Rightarrow> string \<Rightarrow> bool" where
  "is_substr p [] = (p = [])"
| "is_substr p (c # cs) = (take (length p) (c # cs) = p \<or> is_substr p cs)"

text \<open>\<^verbatim>\<open>key in x\<close> for a string key: key of a dictionary, element of a list,
  substring of a string, and \<^verbatim>\<open>TypeError\<close> on anything else.\<close>

fun py_in :: "string \<Rightarrow> json \<Rightarrow> exn + bool" where
  "py_in k (JObj kvs) = Inr (map_of kvs k \<noteq> None)"
| "py_in k (JList xs) = Inr (JStr k \<in> set xs)"
| "py_in k (JStr s) = Inr (is_substr k s)"
| "py_in k _ = Inl TypeError"

text \<open>\<^verbatim>\<open>x[key]\<close> for a string key: only a dictionary accepts it.\<close>

fun py_subscript :: "json \<Rightarrow> string \<Rightarrow> exn + json" where
  "py_subscript (JObj kvs) k = (case map_of kvs k of None \<Rightarrow> Inl KeyError | Some v \<Rightarrow> Inr v)"
| "py_subscript _ k = Inl TypeError"

text \<open>\<^verbatim>\<open>x.get(key, default)\<close>: only a dictionary has the method.\<close>

fun py_get :: "json \<Rightarrow> string \<Rightarrow> json \<Rightarrow> exn + json" where
  "py_get (JObj kvs) k d = Inr (case map_of kvs k of None \<Rightarrow> d | Some v \<Rightarrow> v)"
| "py_get _ k d = Inl AttributeError"

text \<open>\<^verbatim>\<open>x[0]\<close>.\<close>

fun py_first :: "json \<Rightarrow> exn + json" where
  "py_first (JList []) = Inl IndexError"
| "py_first (JList (x # xs)) = Inr x"
| "py_first (JStr []) = Inl IndexError"
| "py_first (JStr (c # cs)) = Inr (JStr [c])"
| "py_first (JObj kvs) = Inl KeyError"
| "py_first _ = Inl TypeError"

text \<open>The items that \<^verbatim>\<open>for item in x\<close> visits.\<close>

fun py_iter :: "json \<Rightarrow> exn + json list" where
  "py_iter (JList xs) = Inr xs"
| "py_iter (JObj kvs) = Inr (map (\<lambda>kv. JStr (fst kv)) kvs)"
| "py_iter (JStr s) = Inr (map (\<lambda>c. JStr [c]) s)"
| "py_iter _ = Inl TypeError"

section \<open>The process state: credentials, network, log\<close>

datatype query = PullRequestsQuery | RepositoriesQuery

record request =
  query :: query
  variables :: "(string \<times> json) list"
  headers :: "(string \<times> string) list"

text \<open>
  What one \<^verbatim>\<open>requests.post\<close>, \<^verbatim>\<open>raise_for_status\<close>, \<^verbatim>\<open>response.json\<close> sequence
  gives: the exception one of the three raised, or the decoded body.
\<close>

datatype response = Failed exn | Body json

datatype message =
    SwitchedToken nat
  | GraphQLErrorsRepo json string json
  | FetchedPage json nat nat
  | NetworkErrorRepo json string exn
  | UnexpectedErrorRepo json string exn
  | FetchingOrg string
  | GraphQLErrorsOrg string json
  | NoReposFound string
  | EntryIsNone string
  | ErrorProcessingRepo json string exn
  | NetworkErrorOrg string exn
  | UnexpectedErrorOrg string exn
  | ProcessingOrg string
  | DataWritten string string
  | NoDataFetched string

datatype event = LogInfo message | LogError message | Print message | Sleep nat

text \<open>
  \<open>tokens\<close> is \<^verbatim>\<open>GITHUB_TOKENS\<close> and \<open>token_index\<close> the global of that name. \<open>script\<close>
  holds the responses the server will give to the requests still to come, in order;
  the script is deterministic, so every behaviour of a server is the behaviour on some
  script. \<open>requests\<close> records the requests issued and \<open>events\<close> the calls to
  \<^verbatim>\<open>logging\<close>, \<^verbatim>\<open>print\<close> and \<^verbatim>\<open>sleep\<close>. \<open>files\<close> maps a file name to the lines
  written to it, each line the list of its cells; how the \<^verbatim>\<open>csv\<close> module prints and
  quotes a cell is outside the model.
\<close>

record world =
  tokens :: "string list"
  token_index :: nat
  script :: "response list"
  requests :: "request list"
  events :: "event list"
  files :: "string \<rightharpoonup> json list list"

definition emit :: "event list \<Rightarrow> world \<Rightarrow> world" where
  "emit evs w = w\<lparr>events := events w @ evs\<rparr>"

definition get_headers :: "world \<Rightarrow> (exn + (string \<times> string) list) \<times> world" where
  "get_headers w =
     (if token_index w < length (tokens w)
      then (Inr [(''Authorization'', ''Bearer '' @ tokens w ! token_index w)], w)
      else (Inl IndexError, w))"

definition switch_token :: "world \<Rightarrow> exn + world" where
  "switch_token w =
     (if length (tokens w) = 0 then Inl ZeroDivisionError
      else (let i = (token_index w + 1) mod length (tokens w)
            in Inr (emit [LogInfo (SwitchedToken i), Print (SwitchedToken i)]
                      (w\<lparr>token_index := i\<rparr>))))"

fun switch_token_times :: "nat \<Rightarrow> world \<Rightarrow> exn + world" where
  "switch_token_times 0 w = Inr w"
| "switch_token_times (Suc n) w = ebind (switch_token w) (switch_token_times n)"

text \<open>
  One request: the next response of the script answers it. With no response left the
  call has not returned (\<open>None\<close>).
\<close>

definition post ::
  "query \<Rightarrow> (string \<times> json) list \<Rightarrow> (string \<times> string) list \<Rightarrow> world \<Rightarrow> (response \<times> world) option" where
  "post q vars hdrs w =
     (case script w of
        [] \<Rightarrow> None
      | r # rs \<Rightarrow>
          Some (r, w\<lparr>script := rs,
                      requests := requests w @ [\<lparr>query = q, variables = vars, headers = hdrs\<rparr>]\<rparr>))"

section \<open>fetch_pull_requests_count\<close>

record pr_state =
  open_count :: nat
  closed_count :: nat
  cursor :: json

datatype ctl = Break | Continue

datatype 's iter = Exit 's world | Again 's world | Raise exn world

text \<open>The \<^verbatim>\<open>for pr in pull_requests\<close> loop. An exception ends it with the counts
  reached so far, which stay in the two local variables.\<close>

fun count_states :: "json list \<Rightarrow> nat \<Rightarrow> nat \<Rightarrow> exn option \<times> nat \<times> nat" where
  "count_states [] oc cc = (None, oc, cc)"
| "count_states (pr # prs) oc cc =
     (case py_subscript pr ''state'' of
        Inl e \<Rightarrow> (Some e, oc, cc)
      | Inr s \<Rightarrow>
          if s = JStr ''CLOSED'' \<or> s = JStr ''MERGED'' then count_states prs oc (cc + 1)
          else if s = JStr ''OPEN'' then count_states prs (oc + 1) cc
          else count_states prs oc cc)"

definition pr_variables :: "string \<Rightarrow> json \<Rightarrow> pr_state \<Rightarrow> (string \<times> json) list" where
  "pr_variables org_name repo_name st =
     [(''org'', JStr org_name), (''repo'', repo_name), (''cursor'', cursor st)]"

definition pull_requests_of :: "json \<Rightarrow> exn + json" where
  "pull_requests_of data =
     ebind (ebind (py_subscript data ''data'') (\<lambda>d. py_subscript d ''repository''))
       (\<lambda>r. py_subscript r ''pullRequests'')"

definition pr_page_info :: "json \<Rightarrow> string \<Rightarrow> exn + json" where
  "pr_page_info data k =
     ebind (ebind (pull_requests_of data) (\<lambda>p. py_subscript p ''pageInfo''))
       (\<lambda>i. py_subscript i k)"

text \<open>The body of the \<^verbatim>\<open>try\<close> from the decoded body on (lines 78 to 96).\<close>

definition pr_handle_data ::
  "string \<Rightarrow> json \<Rightarrow> json \<Rightarrow> pr_state \<Rightarrow> world \<Rightarrow> (exn + ctl) \<times> pr_state \<times> world" where
  "pr_handle_data org_name repo_name data st w =
     (case py_in ''errors'' data of
        Inl e \<Rightarrow> (Inl e, st, w)
      | Inr True \<Rightarrow>
          (case py_subscript data ''errors'' of
             Inl e \<Rightarrow> (Inl e, st, w)
           | Inr errs \<Rightarrow>
               (let w1 = emit [LogError (GraphQLErrorsRepo repo_name org_name errs),
                               Print (GraphQLErrorsRepo repo_name org_name errs)] w
                in case switch_token w1 of
                     Inl e \<Rightarrow> (Inl e, st, w1)
                   | Inr w2 \<Rightarrow> (Inr Continue, st, w2)))
      | Inr False \<Rightarrow>
          (case ebind (ebind (pull_requests_of data) (\<lambda>p. py_subscript p ''nodes'')) py_iter of
             Inl e \<Rightarrow> (Inl e, st, w)
           | Inr prs \<Rightarrow>
               (case count_states prs (open_count st) (closed_count st) of
                  (Some e, oc, cc) \<Rightarrow> (Inl e, st\<lparr>open_count := oc, closed_count := cc\<rparr>, w)
                | (None, oc, cc) \<Rightarrow>
                    (let st1 = st\<lparr>open_count := oc, closed_count := cc\<rparr>;
                         w1 = emit [Print (FetchedPage repo_name oc cc)] w
                     in case pr_page_info data ''hasNextPage'' of
                          Inl e \<Rightarrow> (Inl e, st1, w1)
                        | Inr hn \<Rightarrow>
                            if \<not> py_truthy hn then (Inr Break, st1, w1)
                            else (case pr_page_info data ''endCursor'' of
                                    Inl e \<Rightarrow> (Inl e, st1, w1)
                                  | Inr c \<Rightarrow>
                                      (Inr Continue, st1\<lparr>cursor := c\<rparr>, emit [Sleep 1] w1))))))"

text \<open>The two \<^verbatim>\<open>except\<close> clauses (lines 98 to 105), and what the iteration does next.\<close>

definition pr_after :: "string \<Rightarrow> json \<Rightarrow> (exn + ctl) \<times> pr_state \<times> world \<Rightarrow> pr_state iter" where
  "pr_after org_name repo_name r =
     (case r of
        (Inr Break, st, w) \<Rightarrow> Exit st w
      | (Inr Continue, st, w) \<Rightarrow> Again st w
      | (Inl e, st, w) \<Rightarrow>
          (let m = (if e = RequestException then NetworkErrorRepo repo_name org_name e
                    else UnexpectedErrorRepo repo_name org_name e);
               w1 = emit [LogError m, Print m] w
           in case switch_token w1 of
                Inl e' \<Rightarrow> Raise e' w1
              | Inr w2 \<Rightarrow> Again st w2))"

text \<open>One pass through the body of \<^verbatim>\<open>while True\<close>.\<close>

definition pr_iter :: "string \<Rightarrow> json \<Rightarrow> pr_state \<Rightarrow> world \<Rightarrow> pr_state iter option" where
  "pr_iter org_name repo_name st w =
     (case get_headers w of
        (Inl e, w0) \<Rightarrow> Some (pr_after org_name repo_name (Inl e, st, w0))
      | (Inr h, w0) \<Rightarrow>
          (case post PullRequestsQuery (pr_variables org_name repo_name st) h w0 of
             None \<Rightarrow> None
           | Some (Failed e, w1) \<Rightarrow> Some (pr_after org_name repo_name (Inl e, st, w1))
           | Some (Body data, w1) \<Rightarrow>
               Some (pr_after org_name repo_name (pr_handle_data org_name repo_name data st w1))))"

definition budget :: "world \<Rightarrow> nat" where
  "budget w = 2 * length (script w) + (if token_index w < length (tokens w) then 0 else 1)"

lemma emit_fields [simp]:
  "tokens (emit evs w) = tokens w"
  "token_index (emit evs w) = token_index w"
  "script (emit evs w) = script w"
  "requests (emit evs w) = requests w"
  "files (emit evs w) = files w"
  "events (emit evs w) = events w @ evs"
  by (simp_all add: emit_def)

lemma switch_token_Inr:
  "switch_token w = Inr w' \<Longrightarrow>
     tokens w \<noteq> [] \<and> tokens w' = tokens w \<and> script w' = script w \<and> requests w' = requests w
     \<and> token_index w' = (token_index w + 1) mod length (tokens w)
     \<and> token_index w' < length (tokens w')
     \<and> events w' = events w @ [LogInfo (SwitchedToken (token_index w')), Print (SwitchedToken (token_index w'))]"
  by (auto simp: switch_token_def Let_def split: if_splits)

lemma switch_token_Inl:
  "switch_token w = Inl e \<Longrightarrow> tokens w = [] \<and> e = ZeroDivisionError"
  by (auto simp: switch_token_def Let_def split: if_splits)

lemma pr_handle_data_frame:
  "pr_handle_data org_name repo_name data st w = (r, st', w') \<Longrightarrow>
     tokens w' = tokens w \<and> script w' = script w \<and> requests w' = requests w"
  by (auto simp: pr_handle_data_def Let_def
      split: sum.splits bool.splits prod.splits option.splits if_splits
      dest!: switch_token_Inr)

lemma pr_after_Again_frame:
  "pr_after org_name repo_name (r, st, w) = Again st' w' \<Longrightarrow>
     tokens w' = tokens w \<and> script w' = script w \<and> requests w' = requests w"
  by (auto simp: pr_after_def Let_def split: sum.splits ctl.splits dest!: switch_token_Inr)

lemma pr_after_Inl_Again:
  "pr_after org_name repo_name (Inl e, st, w) = Again st' w' \<Longrightarrow>
     token_index w' < length (tokens w')"
  by (auto simp: pr_after_def Let_def split: sum.splits dest!: switch_token_Inr)

lemma pr_iter_budget:
  assumes "pr_iter org_name repo_name st w = Some (Again st' w')"
  shows "budget w' < budget w"
proof (cases "token_index w < length (tokens w)")
  case False
  with assms have a: "pr_after org_name repo_name (Inl IndexError, st, w) = Again st' w'"
    by (simp add: pr_iter_def get_headers_def)
  from pr_after_Again_frame [OF a] pr_after_Inl_Again [OF a] False
  show ?thesis by (simp add: budget_def)
next
  case True
  with assms obtain r rs where s: "script w = r # rs"
    by (cases "script w") (auto simp: pr_iter_def get_headers_def post_def)
  define w1 where "w1 = w\<lparr>script := rs, requests := requests w @
     [\<lparr>query = PullRequestsQuery, variables = pr_variables org_name repo_name st,
       headers = [(''Authorization'', ''Bearer '' @ tokens w ! token_index w)]\<rparr>]\<rparr>"
  have w1: "script w1 = rs" "tokens w1 = tokens w" by (simp_all add: w1_def)
  have "script w' = rs"
  proof (cases r)
    case (Failed e)
    with assms True s have "pr_after org_name repo_name (Inl e, st, w1) = Again st' w'"
      by (simp add: pr_iter_def get_headers_def post_def w1_def)
    from pr_after_Again_frame [OF this] w1 show ?thesis by simp
  next
    case (Body data)
    obtain r2 st2 w2 where h: "pr_handle_data org_name repo_name data st w1 = (r2, st2, w2)"
      by (cases "pr_handle_data org_name repo_name data st w1") auto
    with assms True s Body have "pr_after org_name repo_name (r2, st2, w2) = Again st' w'"
      by (simp add: pr_iter_def get_headers_def post_def w1_def)
    from pr_after_Again_frame [OF this] pr_handle_data_frame [OF h] w1 show ?thesis by simp
  qed
  with s show ?thesis by (simp add: budget_def)
qed

function pr_loop ::
  "string \<Rightarrow> json \<Rightarrow> pr_state \<Rightarrow> world \<Rightarrow> ((exn + nat \<times> nat) \<times> world) option" where
  "pr_loop org_name repo_name st w =
     (case pr_iter org_name repo_name st w of
        None \<Rightarrow> None
      | Some (Exit st' w') \<Rightarrow> Some (Inr (open_count st', closed_count st'), w')
      | Some (Raise e w') \<Rightarrow> Some (Inl e, w')
      | Some (Again st' w') \<Rightarrow> pr_loop org_name repo_name st' w')"
  by pat_completeness auto
termination
  by (relation "measure (\<lambda>(org_name, repo_name, st, w). budget w)")
     (auto dest: pr_iter_budget)

declare pr_loop.simps [simp del]

definition fetch_pull_requests_count ::
  "json \<Rightarrow> string \<Rightarrow> world \<Rightarrow> ((exn + nat \<times> nat) \<times> world) option" where
  "fetch_pull_requests_count repo_name org_name w =
     pr_loop org_name repo_name \<lparr>open_count = 0, closed_count = 0, cursor = JNull\<rparr> w"


text \<open>
  \<open>advances w w'\<close>: \<open>w'\<close> comes from \<open>w\<close> by consuming responses, issuing requests
  and writing events; credentials and files are the same.
\<close>

definition advances :: "world \<Rightarrow> world \<Rightarrow> bool" where
  "advances w w' \<longleftrightarrow>
     tokens w' = tokens w \<and> files w' = files w
     \<and> (\<exists>used. script w = used @ script w')
     \<and> (\<exists>new. requests w' = requests w @ new)
     \<and> (\<exists>evs. events w' = events w @ evs)"

lemma advances_refl [simp]: "advances w w"
  by (simp add: advances_def)

lemma advances_trans: "advances w w1 \<Longrightarrow> advances w1 w2 \<Longrightarrow> advances w w2"
  by (auto simp: advances_def)

lemma advances_emit [simp]: "advances w (emit evs w)"
  by (simp add: advances_def)

lemma advances_emit_right: "advances w w1 \<Longrightarrow> advances w (emit evs w1)"
  by (auto simp: advances_def)

lemma advances_length: "advances w w' \<Longrightarrow> length (script w') \<le> length (script w)"
  by (auto simp: advances_def)

lemma switch_token_advances: "switch_token w = Inr w' \<Longrightarrow> advances w w'"
  by (auto simp: switch_token_def Let_def advances_def split: if_splits)

lemma post_advances: "post q vars hdrs w = Some (r, w') \<Longrightarrow> advances w w'"
  by (auto simp: post_def advances_def split: list.splits)

lemma pr_handle_data_advances:
  "pr_handle_data org_name repo_name data st w = (r, st', w') \<Longrightarrow> advances w w'"
  by (auto simp: pr_handle_data_def Let_def
      split: sum.splits bool.splits prod.splits option.splits if_splits
      intro: advances_emit_right advances_trans [OF advances_emit switch_token_advances])

lemma pr_after_advances:
  "pr_after org_name repo_name (r, st, w) = it \<Longrightarrow>
     (case it of Exit st' w' \<Rightarrow> advances w w' | Again st' w' \<Rightarrow> advances w w'
      | Raise e w' \<Rightarrow> advances w w')"
  by (auto simp: pr_after_def Let_def split: sum.splits ctl.splits
      intro: advances_trans [OF advances_emit switch_token_advances])

lemma pr_iter_advances:
  assumes "pr_iter org_name repo_name st w = Some it"
  shows "case it of Exit st' w' \<Rightarrow> advances w w' | Again st' w' \<Rightarrow> advances w w'
         | Raise e w' \<Rightarrow> advances w w'"
proof (cases "token_index w < length (tokens w)")
  case False
  with assms have "pr_after org_name repo_name (Inl IndexError, st, w) = it"
    by (simp add: pr_iter_def get_headers_def)
  from pr_after_advances [OF this] show ?thesis .
next
  case True
  let ?h = "[(''Authorization'', ''Bearer '' @ tokens w ! token_index w)]"
  from True assms obtain r w1 where
    p: "post PullRequestsQuery (pr_variables org_name repo_name st) ?h w = Some (r, w1)"
    by (auto simp: pr_iter_def get_headers_def split: option.splits)
  note a1 = post_advances [OF p]
  show ?thesis
  proof (cases r)
    case (Failed e)
    with assms True p have "pr_after org_name repo_name (Inl e, st, w1) = it"
      by (simp add: pr_iter_def get_headers_def)
    from pr_after_advances [OF this] a1 show ?thesis
      by (auto split: iter.splits intro: advances_trans)
  next
    case (Body data)
    obtain r2 st2 w2 where h: "pr_handle_data org_name repo_name data st w1 = (r2, st2, w2)"
      by (cases "pr_handle_data org_name repo_name data st w1") auto
    with assms True p Body have "pr_after org_name repo_name (r2, st2, w2) = it"
      by (simp add: pr_iter_def get_headers_def)
    from pr_after_advances [OF this] pr_handle_data_advances [OF h] a1 show ?thesis
      by (auto split: iter.splits intro: advances_trans)
  qed
qed

lemma pr_loop_advances:
  "pr_loop org_name repo_name st w = Some (r, w') \<Longrightarrow> advances w w'"
proof (induction org_name repo_name st w rule: pr_loop.induct)
  case (1 org_name repo_name st w)
  from "1.prems" obtain it where it: "pr_iter org_name repo_name st w = Some it"
    by (auto simp: pr_loop.simps [of org_name repo_name st w] split: option.splits)
  note a = pr_iter_advances [OF it]
  show ?case
  proof (cases it)
    case (Exit st1 w1)
    with it "1.prems" a show ?thesis
      by (simp add: pr_loop.simps [of org_name repo_name st w])
  next
    case (Again st1 w1)
    with it "1.prems" have "pr_loop org_name repo_name st1 w1 = Some (r, w')"
      by (simp add: pr_loop.simps [of org_name repo_name st w])
    from "1.IH" [OF it Again this] a Again show ?thesis
      by (auto intro: advances_trans)
  next
    case (Raise e w1)
    with it "1.prems" a show ?thesis
      by (simp add: pr_loop.simps [of org_name repo_name st w])
  qed
qed

section \<open>fetch_org_repos\<close>

text \<open>The right-hand sides of lines 197 to 211, one definition for each local variable.\<close>

definition name_of :: "json \<Rightarrow> exn + json" where
  "name_of repo = py_get repo ''name'' (JStr ''N/A'')"

definition is_private_of :: "json \<Rightarrow> exn + json" where
  "is_private_of repo =
     ebind (py_get repo ''isPrivate'' (JBool False))
       (\<lambda>p. Inr (JStr (if py_truthy p then ''Private'' else ''Public'')))"

definition disk_usage_of :: "json \<Rightarrow> exn + json" where
  "disk_usage_of repo = py_get repo ''diskUsage'' (JStr ''N/A'')"

definition default_branch_of :: "json \<Rightarrow> exn + json" where
  "default_branch_of repo =
     ebind (py_get repo ''defaultBranchRef'' (JObj [])) (\<lambda>b. py_get b ''name'' (JStr ''N/A''))"

definition history_of :: "json \<Rightarrow> exn + json" where
  "history_of repo =
     ebind (ebind (py_get repo ''defaultBranchRef'' (JObj [])) (\<lambda>b. py_get b ''target'' (JObj [])))
       (\<lambda>t. py_get t ''history'' (JObj []))"

definition total_commits_of :: "json \<Rightarrow> exn + json" where
  "total_commits_of repo = ebind (history_of repo) (\<lambda>h. py_get h ''totalCount'' (JInt 0))"

definition last_pusher_of :: "json \<Rightarrow> exn + json" where
  "last_pusher_of repo =
     ebind (ebind (ebind (ebind (ebind (history_of repo)
       (\<lambda>h. py_get h ''nodes'' (JList [JObj []])))
       py_first)
       (\<lambda>n. py_get n ''author'' (JObj [])))
       (\<lambda>a. py_get a ''user'' (JObj [])))
       (\<lambda>u. py_get u ''login'' (JStr ''N/A''))"

definition total_count_of :: "string \<Rightarrow> json \<Rightarrow> exn + json" where
  "total_count_of k repo = ebind (py_get repo k (JObj [])) (\<lambda>x. py_get x ''totalCount'' (JInt 0))"

fun emap :: "('a \<Rightarrow> exn + 'b) \<Rightarrow> 'a list \<Rightarrow> exn + 'b list" where
  "emap f [] = Inr []"
| "emap f (x # xs) = ebind (f x) (\<lambda>y. ebind (emap f xs) (\<lambda>ys. Inr (y # ys)))"

fun as_str :: "json \<Rightarrow> exn + string" where
  "as_str (JStr s) = Inr s"
| "as_str _ = Inl TypeError"

fun intercalate :: "string \<Rightarrow> string list \<Rightarrow> string" where
  "intercalate sep [] = []"
| "intercalate sep [x] = x"
| "intercalate sep (x # y # ys) = x @ sep @ intercalate sep (y # ys)"

text \<open>\<^verbatim>\<open>sep.join(items)\<close>: every item has to be a string.\<close>

definition py_join :: "string \<Rightarrow> json list \<Rightarrow> exn + json" where
  "py_join sep items = ebind (emap as_str items) (\<lambda>ss. Inr (JStr (intercalate sep ss)))"

definition languages_of :: "json \<Rightarrow> exn + json" where
  "languages_of repo =
     ebind (ebind (ebind (ebind (py_get repo ''languages'' (JObj []))
       (\<lambda>l. py_get l ''nodes'' (JList [])))
       py_iter)
       (emap (\<lambda>lang. py_get lang ''name'' (JStr ''N/A''))))
       (py_join '', '')"

definition is_archived_of :: "json \<Rightarrow> exn + json" where
  "is_archived_of repo =
     ebind (py_get repo ''isArchived'' (JBool False))
       (\<lambda>a. Inr (JStr (if py_truthy a then ''Yes'' else ''No'')))"

definition last_pushed_at_of :: "json \<Rightarrow> exn + json" where
  "last_pushed_at_of repo = py_get repo ''pushedAt'' (JStr ''N/A'')"

definition last_updated_at_of :: "json \<Rightarrow> exn + json" where
  "last_updated_at_of repo = py_get repo ''updatedAt'' (JStr ''N/A'')"

text \<open>Lines 197 to 202: what is computed before the pull requests are counted.\<close>

definition repo_head :: "json \<Rightarrow> exn + (string \<times> json) list" where
  "repo_head repo =
     ebind (name_of repo) (\<lambda>name.
     ebind (is_private_of repo) (\<lambda>is_private.
     ebind (disk_usage_of repo) (\<lambda>disk_usage.
     ebind (default_branch_of repo) (\<lambda>default_branch.
     ebind (total_commits_of repo) (\<lambda>total_commits.
     ebind (last_pusher_of repo) (\<lambda>last_pusher.
       Inr [(''Repository Name'', name),
            (''Visibility'', is_private),
            (''Size (KB)'', disk_usage),
            (''Default Branch'', default_branch),
            (''Total Commits'', total_commits),
            (''Last Pusher'', last_pusher)]))))))"

text \<open>Lines 204 to 211: what is computed after.\<close>

definition repo_tail :: "json \<Rightarrow> exn + (string \<times> json) list" where
  "repo_tail repo =
     ebind (total_count_of ''openIssues'' repo) (\<lambda>open_issues.
     ebind (total_count_of ''closedIssues'' repo) (\<lambda>closed_issues.
     ebind (languages_of repo) (\<lambda>languages.
     ebind (total_count_of ''releases'' repo) (\<lambda>total_releases.
     ebind (total_count_of ''refs'' repo) (\<lambda>total_tags.
     ebind (last_pushed_at_of repo) (\<lambda>last_pushed_at.
     ebind (last_updated_at_of repo) (\<lambda>last_updated_at.
     ebind (is_archived_of repo) (\<lambda>is_archived.
       Inr [(''Open Issues'', open_issues),
            (''Closed Issues'', closed_issues),
            (''Languages'', languages),
            (''Total Releases'', total_releases),
            (''Total Tags'', total_tags),
            (''Last Pushed At'', last_pushed_at),
            (''Last Updated At'', last_updated_at),
            (''Archived'', is_archived)]))))))))"

text \<open>
  The body of the inner \<^verbatim>\<open>try\<close> up to the dictionary \<^verbatim>\<open>repo_info\<close> (lines 197 to
  230). The dictionary is the association list of its sixteen items in the order the
  source writes them.
\<close>

definition build_repo_info ::
  "string \<Rightarrow> json \<Rightarrow> world \<Rightarrow> ((exn + (string \<times> json) list) \<times> world) option" where
  "build_repo_info org_name repo w =
     (case repo_head repo of
        Inl e \<Rightarrow> Some (Inl e, w)
      | Inr hd_items \<Rightarrow>
          (case name_of repo of
             Inl e \<Rightarrow> Some (Inl e, w)
           | Inr name \<Rightarrow>
               (case fetch_pull_requests_count name org_name w of
                  None \<Rightarrow> None
                | Some (Inl e, w1) \<Rightarrow> Some (Inl e, w1)
                | Some (Inr (open_pull_requests, closed_pull_requests), w1) \<Rightarrow>
                    (case repo_tail repo of
                       Inl e \<Rightarrow> Some (Inl e, w1)
                     | Inr tl_items \<Rightarrow>
                         Some (Inr (hd_items
                                @ [(''Open Pull Requests'', JInt (int open_pull_requests)),
                                   (''Closed Pull Requests'', JInt (int closed_pull_requests))]
                                @ tl_items), w1)))))"

text \<open>
  The \<^verbatim>\<open>for repo in repos\<close> loop (lines 190 to 235). The handler of the inner
  \<^verbatim>\<open>try\<close> evaluates \<^verbatim>\<open>repo.get('name', 'N/A')\<close> for its message; an exception
  raised there leaves the loop, with the rows appended so far kept in
  \<^verbatim>\<open>repo_details\<close>.
\<close>

fun process_repos ::
  "string \<Rightarrow> json list \<Rightarrow> (string \<times> json) list list \<Rightarrow> world
     \<Rightarrow> (exn option \<times> (string \<times> json) list list \<times> world) option" where
  "process_repos org_name [] rows w = Some (None, rows, w)"
| "process_repos org_name (repo # rest) rows w =
     (if repo = JNull
      then process_repos org_name rest rows
             (emit [LogError (EntryIsNone org_name), Print (EntryIsNone org_name)] w)
      else (case build_repo_info org_name repo w of
              None \<Rightarrow> None
            | Some (Inr repo_info, w1) \<Rightarrow> process_repos org_name rest (rows @ [repo_info]) w1
            | Some (Inl e, w1) \<Rightarrow>
                (case py_get repo ''name'' (JStr ''N/A'') of
                   Inl e' \<Rightarrow> Some (Some e', rows, w1)
                 | Inr n \<Rightarrow>
                     process_repos org_name rest rows
                       (emit [LogError (ErrorProcessingRepo n org_name e),
                              Print (ErrorProcessingRepo n org_name e)] w1))))"

record enum_state =
  repo_details :: "(string \<times> json) list list"
  org_cursor :: json

definition org_variables :: "string \<Rightarrow> enum_state \<Rightarrow> (string \<times> json) list" where
  "org_variables org_name st = [(''org'', JStr org_name), (''cursor'', org_cursor st)]"

definition repositories_of :: "json \<Rightarrow> string \<Rightarrow> json \<Rightarrow> exn + json" where
  "repositories_of data k d =
     ebind (ebind (ebind (py_get data ''data'' (JObj []))
       (\<lambda>x. py_get x ''organization'' (JObj [])))
       (\<lambda>x. py_get x ''repositories'' (JObj [])))
       (\<lambda>x. py_get x k d)"

text \<open>Lines 181 to 184: \<^verbatim>\<open>repos\<close>, \<^verbatim>\<open>has_next_page\<close> and the new \<^verbatim>\<open>cursor\<close>.\<close>

definition page_parts :: "json \<Rightarrow> exn + json \<times> json \<times> json" where
  "page_parts data =
     ebind (repositories_of data ''nodes'' (JList [])) (\<lambda>repos.
     ebind (repositories_of data ''pageInfo'' (JObj [])) (\<lambda>page_info.
     ebind (py_get page_info ''hasNextPage'' (JBool False)) (\<lambda>has_next_page.
     ebind (py_get page_info ''endCursor'' JNull) (\<lambda>c.
       Inr (repos, has_next_page, c)))))"

text \<open>The body of the outer \<^verbatim>\<open>try\<close> from the decoded body on (lines 175 to 239).\<close>

definition org_handle_data ::
  "string \<Rightarrow> json \<Rightarrow> enum_state \<Rightarrow> world \<Rightarrow> ((exn + ctl) \<times> enum_state \<times> world) option" where
  "org_handle_data org_name data st w =
     (case py_in ''errors'' data of
        Inl e \<Rightarrow> Some (Inl e, st, w)
      | Inr True \<Rightarrow>
          (case py_subscript data ''errors'' of
             Inl e \<Rightarrow> Some (Inl e, st, w)
           | Inr errs \<Rightarrow>
               (let w1 = emit [LogError (GraphQLErrorsOrg org_name errs),
                               Print (GraphQLErrorsOrg org_name errs)] w
                in case switch_token w1 of
                     Inl e \<Rightarrow> Some (Inl e, st, w1)
                   | Inr w2 \<Rightarrow> Some (Inr Continue, st, w2)))
      | Inr False \<Rightarrow>
          (case page_parts data of
             Inl e \<Rightarrow> Some (Inl e, st, w)
           | Inr (repos, has_next_page, c) \<Rightarrow>
               (let st1 = st\<lparr>org_cursor := c\<rparr>
                in if \<not> py_truthy repos
                   then Some (Inr Break, st1, emit [Print (NoReposFound org_name)] w)
                   else (case py_iter repos of
                           Inl e \<Rightarrow> Some (Inl e, st1, w)
                         | Inr items \<Rightarrow>
                             (case process_repos org_name items (repo_details st1) w of
                                None \<Rightarrow> None
                              | Some (Some e, rows, w1) \<Rightarrow>
                                  Some (Inl e, st1\<lparr>repo_details := rows\<rparr>, w1)
                              | Some (None, rows, w1) \<Rightarrow>
                                  if \<not> py_truthy has_next_page
                                  then Some (Inr Break, st1\<lparr>repo_details := rows\<rparr>, w1)
                                  else Some (Inr Continue, st1\<lparr>repo_details := rows\<rparr>,
                                             emit [Sleep 1] w1))))))"

text \<open>The two \<^verbatim>\<open>except\<close> clauses of the outer \<^verbatim>\<open>try\<close> (lines 241 to 248).\<close>

definition org_after :: "string \<Rightarrow> (exn + ctl) \<times> enum_state \<times> world \<Rightarrow> enum_state iter" where
  "org_after org_name r =
     (case r of
        (Inr Break, st, w) \<Rightarrow> Exit st w
      | (Inr Continue, st, w) \<Rightarrow> Again st w
      | (Inl e, st, w) \<Rightarrow>
          (let m = (if e = RequestException then NetworkErrorOrg org_name e
                    else UnexpectedErrorOrg org_name e);
               w1 = emit [LogError m, Print m] w
           in case switch_token w1 of
                Inl e' \<Rightarrow> Raise e' w1
              | Inr w2 \<Rightarrow> Again st w2))"

definition org_iter :: "string \<Rightarrow> enum_state \<Rightarrow> world \<Rightarrow> enum_state iter option" where
  "org_iter org_name st w =
     (case get_headers w of
        (Inl e, w0) \<Rightarrow> Some (org_after org_name (Inl e, st, w0))
      | (Inr h, w0) \<Rightarrow>
          (case post RepositoriesQuery (org_variables org_name st) h w0 of
             None \<Rightarrow> None
           | Some (Failed e, w1) \<Rightarrow> Some (org_after org_name (Inl e, st, w1))
           | Some (Body data, w1) \<Rightarrow>
               (case org_handle_data org_name data st w1 of
                  None \<Rightarrow> None
                | Some r \<Rightarrow> Some (org_after org_name r))))"


fun iter_world :: "'s iter \<Rightarrow> world" where
  "iter_world (Exit st w) = w"
| "iter_world (Again st w) = w"
| "iter_world (Raise e w) = w"

lemma build_repo_info_advances:
  "build_repo_info org_name repo w = Some (r, w') \<Longrightarrow> advances w w'"
  by (auto simp: build_repo_info_def fetch_pull_requests_count_def
      split: sum.splits option.splits prod.splits dest: pr_loop_advances)

lemma process_repos_advances:
  "process_repos org_name repos rows w = Some (r, rows', w') \<Longrightarrow> advances w w'"
proof (induction repos arbitrary: rows w)
  case Nil
  then show ?case by simp
next
  case (Cons repo rest)
  show ?case
  proof (cases "repo = JNull")
    case True
    with Cons.prems have
      "process_repos org_name rest rows
         (emit [LogError (EntryIsNone org_name), Print (EntryIsNone org_name)] w) = Some (r, rows', w')"
      by simp
    from Cons.IH [OF this] show ?thesis
      by (rule advances_trans [OF advances_emit])
  next
    case False
    with Cons.prems obtain b w1 where b: "build_repo_info org_name repo w = Some (b, w1)"
      by (auto split: option.splits)
    note a = build_repo_info_advances [OF b]
    show ?thesis
    proof (cases b)
      case (Inr repo_info)
      with Cons.prems False b have
        "process_repos org_name rest (rows @ [repo_info]) w1 = Some (r, rows', w')" by simp
      from Cons.IH [OF this] a show ?thesis by (rule advances_trans [rotated])
    next
      case (Inl e)
      show ?thesis
      proof (cases "py_get repo ''name'' (JStr ''N/A'')")
        case (Inl e')
        with Cons.prems False b \<open>b = Inl e\<close> a show ?thesis by simp
      next
        case (Inr n)
        with Cons.prems False b \<open>b = Inl e\<close> have
          "process_repos org_name rest rows
             (emit [LogError (ErrorProcessingRepo n org_name e),
                    Print (ErrorProcessingRepo n org_name e)] w1) = Some (r, rows', w')"
          by simp
        from Cons.IH [OF this] have "advances w1 w'"
          by (rule advances_trans [OF advances_emit])
        with a show ?thesis by (rule advances_trans)
      qed
    qed
  qed
qed

lemma org_handle_data_advances:
  "org_handle_data org_name data st w = Some (r, st', w') \<Longrightarrow> advances w w'"
  by (auto simp: org_handle_data_def Let_def
      split: sum.splits bool.splits prod.splits option.splits if_splits
      dest: process_repos_advances
      intro: advances_emit_right advances_trans [OF advances_emit switch_token_advances])

lemma org_after_advances: "advances w (iter_world (org_after org_name (r, st, w)))"
  by (auto simp: org_after_def Let_def split: sum.splits ctl.splits
      intro: advances_trans [OF advances_emit switch_token_advances])

lemma org_after_Inl_Again:
  "org_after org_name (Inl e, st, w) = Again st' w' \<Longrightarrow> token_index w' < length (tokens w')"
  by (auto simp: org_after_def Let_def split: sum.splits dest!: switch_token_Inr)

text \<open>What an iteration that reached \<^verbatim>\<open>requests.post\<close> leaves of the script.\<close>

lemma org_iter_posted:
  assumes "org_iter org_name st w = Some it" and "token_index w < length (tokens w)"
  shows "\<exists>r w1. post RepositoriesQuery (org_variables org_name st)
                  [(''Authorization'', ''Bearer '' @ tokens w ! token_index w)] w = Some (r, w1)
               \<and> advances w1 (iter_world it)"
proof -
  let ?h = "[(''Authorization'', ''Bearer '' @ tokens w ! token_index w)]"
  from assms obtain r w1 where
    p: "post RepositoriesQuery (org_variables org_name st) ?h w = Some (r, w1)"
    by (auto simp: org_iter_def get_headers_def split: option.splits)
  have "advances w1 (iter_world it)"
  proof (cases r)
    case (Failed e)
    with assms p have "it = org_after org_name (Inl e, st, w1)"
      by (simp add: org_iter_def get_headers_def)
    then show ?thesis by (simp add: org_after_advances)
  next
    case (Body data)
    with assms p obtain r2 st2 w2 where
      h: "org_handle_data org_name data st w1 = Some (r2, st2, w2)"
      and it: "it = org_after org_name (r2, st2, w2)"
      by (auto simp: org_iter_def get_headers_def split: option.splits)
    from org_handle_data_advances [OF h] org_after_advances [of w2 org_name r2 st2] it
    show ?thesis by (auto intro: advances_trans)
  qed
  with p show ?thesis by blast
qed

lemma org_iter_advances:
  assumes "org_iter org_name st w = Some it"
  shows "advances w (iter_world it)"
proof (cases "token_index w < length (tokens w)")
  case False
  with assms have "it = org_after org_name (Inl IndexError, st, w)"
    by (simp add: org_iter_def get_headers_def)
  then show ?thesis by (simp add: org_after_advances)
next
  case True
  from org_iter_posted [OF assms True] show ?thesis
    by (auto dest: post_advances intro: advances_trans)
qed

lemma org_iter_budget:
  assumes "org_iter org_name st w = Some (Again st' w')"
  shows "budget w' < budget w"
proof (cases "token_index w < length (tokens w)")
  case False
  with assms have a: "org_after org_name (Inl IndexError, st, w) = Again st' w'"
    by (simp add: org_iter_def get_headers_def)
  from org_after_advances [of w org_name "Inl IndexError" st] a
  have "advances w w'" by simp
  with org_after_Inl_Again [OF a] False show ?thesis
    by (auto simp: budget_def advances_def)
next
  case True
  from org_iter_posted [OF assms True] obtain r w1 where
    p: "post RepositoriesQuery (org_variables org_name st)
          [(''Authorization'', ''Bearer '' @ tokens w ! token_index w)] w = Some (r, w1)"
    and a: "advances w1 w'" by auto
  from p have "length (script w) = Suc (length (script w1))"
    by (auto simp: post_def split: list.splits)
  with advances_length [OF a] show ?thesis by (simp add: budget_def)
qed

function org_loop ::
  "string \<Rightarrow> enum_state \<Rightarrow> world \<Rightarrow> ((exn + (string \<times> json) list list) \<times> world) option" where
  "org_loop org_name st w =
     (case org_iter org_name st w of
        None \<Rightarrow> None
      | Some (Exit st' w') \<Rightarrow> Some (Inr (repo_details st'), w')
      | Some (Raise e w') \<Rightarrow> Some (Inl e, w')
      | Some (Again st' w') \<Rightarrow> org_loop org_name st' w')"
  by pat_completeness auto
termination
  by (relation "measure (\<lambda>(org_name, st, w). budget w)") (auto dest: org_iter_budget)

declare org_loop.simps [simp del]

definition fetch_org_repos ::
  "string \<Rightarrow> world \<Rightarrow> ((exn + (string \<times> json) list list) \<times> world) option" where
  "fetch_org_repos org_name w =
     org_loop org_name \<lparr>repo_details = [], org_cursor = JNull\<rparr>
       (emit [Print (FetchingOrg org_name)] w)"

section \<open>main\<close>

definition fieldnames :: "string list" where
  "fieldnames =
     [''Repository Name'', ''Visibility'', ''Size (KB)'', ''Default Branch'', ''Total Commits'',
      ''Last Pusher'', ''Open Pull Requests'', ''Closed Pull Requests'', ''Open Issues'',
      ''Closed Issues'', ''Languages'', ''Total Releases'', ''Total Tags'', ''Last Pushed At'',
      ''Last Updated At'', ''Archived'']"

text \<open>
  \<^verbatim>\<open>csv.DictWriter\<close> with its defaults: a row with a key outside the field names
  raises \<^verbatim>\<open>ValueError\<close>, a field name the row lacks is written as the empty string.
\<close>

definition dict_to_list :: "string list \<Rightarrow> (string \<times> json) list \<Rightarrow> exn + json list" where
  "dict_to_list names rowdict =
     (if \<exists>k \<in> set (map fst rowdict). k \<notin> set names then Inl ValueError
      else Inr (map (\<lambda>k. case map_of rowdict k of None \<Rightarrow> JStr [] | Some v \<Rightarrow> v) names))"

fun writerows ::
  "string list \<Rightarrow> (string \<times> json) list list \<Rightarrow> json list list \<Rightarrow> exn option \<times> json list list" where
  "writerows names [] lines = (None, lines)"
| "writerows names (r # rs) lines =
     (case dict_to_list names r of
        Inl e \<Rightarrow> (Some e, lines)
      | Inr cells \<Rightarrow> writerows names rs (lines @ [cells]))"

text \<open>The body of \<^verbatim>\<open>for org in ORG_NAMES\<close> (lines 254 to 272).\<close>

definition main_org :: "string \<Rightarrow> world \<Rightarrow> (exn option \<times> world) option" where
  "main_org org w =
     (case fetch_org_repos org (emit [Print (ProcessingOrg org)] w) of
        None \<Rightarrow> None
      | Some (Inl e, w1) \<Rightarrow> Some (Some e, w1)
      | Some (Inr repos, w1) \<Rightarrow>
          if repos \<noteq> []
          then (let csv_filename = org @ ''_repo_details.csv'';
                    written = writerows fieldnames repos [map JStr fieldnames];
                    w2 = w1\<lparr>files := (files w1)(csv_filename \<mapsto> snd written)\<rparr>
                in case fst written of
                     Some e \<Rightarrow> Some (Some e, w2)
                   | None \<Rightarrow> Some (None, emit [Print (DataWritten org csv_filename)] w2))
          else Some (None, emit [Print (NoDataFetched org)] w1))"

fun main :: "string list \<Rightarrow> world \<Rightarrow> (exn option \<times> world) option" where
  "main [] w = Some (None, w)"
| "main (org # orgs) w =
     (case main_org org w of
        None \<Rightarrow> None
      | Some (Some e, w1) \<Rightarrow> Some (Some e, w1)
      | Some (None, w1) \<Rightarrow> main orgs w1)"


text \<open>
  The state in which the functions are first called: the index is 0 (line 33), nothing
  has been requested, printed or written. The token list is not empty there, since the
  module raises \<^verbatim>\<open>ValueError\<close> at line 18 otherwise.
\<close>

definition initial_world :: "string list \<Rightarrow> response list \<Rightarrow> world" where
  "initial_world toks rs =
     \<lparr>tokens = toks, token_index = 0, script = rs, requests = [], events = [],
      files = Map.empty\<rparr>"

section \<open>Notions used to state the properties\<close>

text \<open>The index points into the token list. It does so at the start, and
  \<open>switch_token\<close> keeps it so.\<close>

definition valid :: "world \<Rightarrow> bool" where
  "valid w \<longleftrightarrow> token_index w < length (tokens w)"

text \<open>The state after the request with the given query and variables has been sent
  with the current token and the next response taken from the script.\<close>

definition posted :: "query \<Rightarrow> (string \<times> json) list \<Rightarrow> world \<Rightarrow> world" where
  "posted q vars w =
     w\<lparr>script := tl (script w),
       requests := requests w @
         [\<lparr>query = q, variables = vars,
           headers = [(''Authorization'', ''Bearer '' @ tokens w ! token_index w)]\<rparr>]\<rparr>"

text \<open>The state after a successful \<open>switch_token\<close>.\<close>

definition rotated :: "world \<Rightarrow> world" where
  "rotated w =
     emit [LogInfo (SwitchedToken ((token_index w + 1) mod length (tokens w))),
           Print (SwitchedToken ((token_index w + 1) mod length (tokens w)))]
       (w\<lparr>token_index := (token_index w + 1) mod length (tokens w)\<rparr>)"

text \<open>A soft failure: the decoded body is a dictionary with the key \<^verbatim>\<open>errors\<close>.\<close>

fun soft_failure :: "json \<Rightarrow> json \<Rightarrow> bool" where
  "soft_failure (JObj kvs) errs = (map_of kvs ''errors'' = Some errs)"
| "soft_failure _ errs = False"

text \<open>The failures that the claims name: the request raised, or the body carries
  \<^verbatim>\<open>errors\<close>.\<close>

fun failure :: "response \<Rightarrow> bool" where
  "failure (Failed e) = True"
| "failure (Body (JObj kvs)) = (map_of kvs ''errors'' \<noteq> None)"
| "failure (Body _) = False"

text \<open>The condition under which line 94 is reached and breaks: no \<^verbatim>\<open>errors\<close> key,
  and a \<^verbatim>\<open>hasNextPage\<close> that is false.\<close>

definition no_next_page :: "json \<Rightarrow> bool" where
  "no_next_page data \<longleftrightarrow>
     py_in ''errors'' data = Inr False
     \<and> (case pr_page_info data ''hasNextPage'' of Inl e \<Rightarrow> False | Inr hn \<Rightarrow> \<not> py_truthy hn)"

text \<open>How many rotations a state has seen: the lines \<open>switch_token\<close> has printed.\<close>

fun is_switch :: "event \<Rightarrow> bool" where
  "is_switch (Print (SwitchedToken i)) = True"
| "is_switch _ = False"

definition rotations :: "world \<Rightarrow> nat" where
  "rotations w = length (filter is_switch (events w))"

text \<open>
  A simulated page of the pull-request listing: the body the server sends for a page
  with the given states, \<^verbatim>\<open>hasNextPage\<close> and \<^verbatim>\<open>endCursor\<close>. A simulated listing is
  the script of its pages, every page but the last reporting a next page.
\<close>

definition pr_page :: "string list \<Rightarrow> bool \<Rightarrow> json \<Rightarrow> json" where
  "pr_page states has_next end_cursor =
     JObj [(''data'', JObj [(''repository'', JObj [(''pullRequests'', JObj
       [(''nodes'', JList (map (\<lambda>s. JObj [(''state'', JStr s)]) states)),
        (''pageInfo'', JObj [(''endCursor'', end_cursor),
                            (''hasNextPage'', JBool has_next)])])])])]"

definition pr_listing :: "(string list \<times> json) list \<Rightarrow> string list \<Rightarrow> response list" where
  "pr_listing pages last_states =
     map (\<lambda>(states, c). Body (pr_page states True c)) pages
     @ [Body (pr_page last_states False JNull)]"

definition listed_states :: "(string list \<times> json) list \<Rightarrow> string list \<Rightarrow> string list" where
  "listed_states pages last_states = concat (map fst pages) @ last_states"

text \<open>The counts as the specification words them.\<close>

definition spec_open :: "string list \<Rightarrow> nat" where
  "spec_open states = length (filter (\<lambda>s. s = ''OPEN'') states)"

definition spec_closed_or_merged :: "string list \<Rightarrow> nat" where
  "spec_closed_or_merged states = length (filter (\<lambda>s. s = ''CLOSED'' \<or> s = ''MERGED'') states)"

text \<open>
  What a call leaves for its caller apart from logs: the value it returns and the
  responses it has not consumed. \<open>same_step\<close> relates two passes of a loop that
  continue or leave alike, with the same local state and the same script left.
\<close>

definition outcome :: "('a \<times> world) option \<Rightarrow> ('a \<times> response list) option" where
  "outcome x = map_option (\<lambda>(r, w). (r, script w)) x"

definition outcome2 :: "('a \<times> 'b \<times> world) option \<Rightarrow> ('a \<times> 'b \<times> response list) option" where
  "outcome2 x = map_option (\<lambda>(a, b, w). (a, b, script w)) x"

fun same_step :: "'s iter \<Rightarrow> 's iter \<Rightarrow> bool" where
  "same_step (Exit s w) (Exit t v) = (s = t \<and> script w = script v \<and> valid w \<and> valid v)"
| "same_step (Again s w) (Again t v) = (s = t \<and> script w = script v \<and> valid w \<and> valid v)"
| "same_step _ _ = False"

text \<open>The local state with which a pass of a loop goes round again, if it does.\<close>

fun retried :: "'s iter \<Rightarrow> 's option" where
  "retried (Again s w) = Some s"
| "retried _ = None"

text \<open>
  \<open>kept org_name I\<close>: the property \<open>I\<close> of the rows gathered so far and of the state
  survives logging, sending a request, a rotation, and the processing of one record,
  whether the record yields a row or is skipped.
\<close>

definition kept :: "string \<Rightarrow> ((string \<times> json) list list \<Rightarrow> world \<Rightarrow> bool) \<Rightarrow> bool" where
  "kept org_name I \<longleftrightarrow>
     (\<forall>rows w evs. I rows w \<longrightarrow> I rows (emit evs w))
     \<and> (\<forall>rows w. I rows w \<and> valid w \<longrightarrow> I rows (rotated w))
     \<and> (\<forall>rows w q vars. I rows w \<and> script w \<noteq> [] \<longrightarrow> I rows (posted q vars w))
     \<and> (\<forall>rows w repo info w'. I rows w \<and> valid w
           \<and> build_repo_info org_name repo w = Some (Inr info, w') \<longrightarrow> I (rows @ [info]) w')
     \<and> (\<forall>rows w repo e w'. I rows w \<and> valid w
           \<and> build_repo_info org_name repo w = Some (Inl e, w') \<longrightarrow> I rows w')"

text \<open>What a page of the repository listing holds for a repository: \<^verbatim>\<open>null\<close> or an
  object.\<close>

fun null_or_object :: "json \<Rightarrow> bool" where
  "null_or_object JNull = True"
| "null_or_object (JObj kvs) = True"
| "null_or_object _ = False"

text \<open>
  \<open>missing path v\<close>: walking down \<open>path\<close> from \<open>v\<close>, through objects by key and
  through a non-empty list by its first element, reaches an object that lacks the next
  key.
\<close>

datatype step = Key string | Index0

fun missing :: "step list \<Rightarrow> json \<Rightarrow> bool" where
  "missing (Key k # p) (JObj kvs) = (case map_of kvs k of None \<Rightarrow> True | Some v \<Rightarrow> missing p v)"
| "missing (Index0 # p) (JList (x # xs)) = missing p x"
| "missing _ _ = False"

text \<open>
  A simulated page of the repository listing, and a simulated listing. Each entry of a
  page comes with the pull-request listing the server holds for it; the script has
  that listing after the page exactly when the entry reaches line 203, that is when it
  is not \<^verbatim>\<open>null\<close> and lines 197 to 202 raise nothing. \<open>sim_rows\<close> are the rows the
  entries of a page stand for: one for each entry whose fields all evaluate, with the
  counts of its pull-request listing as the specification words them.
\<close>

definition repo_page :: "json list \<Rightarrow> bool \<Rightarrow> json \<Rightarrow> json" where
  "repo_page entries has_next end_cursor =
     JObj [(''data'', JObj [(''organization'', JObj [(''repositories'', JObj
       [(''pageInfo'', JObj [(''endCursor'', end_cursor),
                            (''hasNextPage'', JBool has_next)]),
        (''nodes'', JList entries)])])])]"

type_synonym sim_repo = "json \<times> (string list \<times> json) list \<times> string list"

fun counts_prs :: "json \<Rightarrow> bool" where
  "counts_prs repo =
     (repo \<noteq> JNull \<and> (case repo_head repo of Inl e \<Rightarrow> False | Inr items \<Rightarrow> True))"

fun entry_script :: "sim_repo \<Rightarrow> response list" where
  "entry_script (repo, pages, last_states) =
     (if counts_prs repo then pr_listing pages last_states else [])"

definition page_script :: "sim_repo list \<Rightarrow> bool \<Rightarrow> json \<Rightarrow> response list" where
  "page_script sims has_next end_cursor =
     Body (repo_page (map fst sims) has_next end_cursor) # concat (map entry_script sims)"

definition org_listing ::
  "(sim_repo list \<times> json) list \<Rightarrow> sim_repo list \<Rightarrow> bool \<Rightarrow> response list" where
  "org_listing pages last_page last_flag =
     concat (map (\<lambda>(sims, c). page_script sims True c) pages)
     @ page_script last_page last_flag JNull"

fun sim_row :: "sim_repo \<Rightarrow> (string \<times> json) list option" where
  "sim_row (repo, pages, last_states) =
     (if repo = JNull then None
      else (case repo_head repo of
              Inl e \<Rightarrow> None
            | Inr hd_items \<Rightarrow>
                (case repo_tail repo of
                   Inl e \<Rightarrow> None
                 | Inr tl_items \<Rightarrow>
                     Some (hd_items
                       @ [(''Open Pull Requests'',
                             JInt (int (spec_open (listed_states pages last_states)))),
                          (''Closed Pull Requests'',
                             JInt (int (spec_closed_or_merged (listed_states pages last_states))))]
                       @ tl_items))))"

definition sim_rows :: "sim_repo list \<Rightarrow> (string \<times> json) list list" where
  "sim_rows sims = List.map_filter sim_row sims"

text \<open>The requests for pages of the repository listing issued so far.\<close>

definition repo_requests :: "world \<Rightarrow> nat" where
  "repo_requests w = length (filter (\<lambda>r. query r = RepositoriesQuery) (requests w))"

definition pr_requests :: "world \<Rightarrow> nat" where
  "pr_requests w = length (filter (\<lambda>r. query r = PullRequestsQuery) (requests w))"

text \<open>\<open>quiet w w'\<close>: between the two states no failure was handled: no rotation, the
  same token, the same files.\<close>

definition quiet :: "world \<Rightarrow> world \<Rightarrow> bool" where
  "quiet w w' \<longleftrightarrow>
     tokens w' = tokens w \<and> token_index w' = token_index w
     \<and> rotations w' = rotations w \<and> files w' = files w"

section \<open>Credential rotation\<close>

lemma switch_token_times_index:
  "tokens w \<noteq> [] \<Longrightarrow> token_index w < length (tokens w) \<Longrightarrow>
     \<exists>w'. switch_token_times n w = Inr w' \<and> tokens w' = tokens w
        \<and> token_index w' = (token_index w + n) mod length (tokens w)"
proof (induction n arbitrary: w)
  case 0
  then show ?case by simp
next
  case (Suc n)
  obtain w1 where w1: "switch_token w = Inr w1"
    using Suc.prems(1) by (auto simp: switch_token_def Let_def)
  note f = switch_token_Inr [OF w1]
  from f have "tokens w1 \<noteq> []" "token_index w1 < length (tokens w1)" by simp_all
  from Suc.IH [OF this] obtain w' where
    "switch_token_times n w1 = Inr w'" "tokens w' = tokens w1"
    "token_index w' = (token_index w1 + n) mod length (tokens w1)" by blast
  with w1 f show ?case
    by (simp add: ebind_def mod_simps)
qed

text \<open>
  Claim C8. For a non-empty token list of size N and an index i below N, one call of
  \<open>switch_token\<close> sets the index to (i + 1) mod N; \<open>get_headers\<close> returns the header of
  the current token and leaves the state, the index with it, as it was; and N calls of
  \<open>switch_token\<close> in a row bring the index back to i.
\<close>

theorem switch_token_cyclic:
  assumes "tokens w \<noteq> []" and "token_index w < length (tokens w)"
  shows "(\<exists>w'. switch_token w = Inr w' \<and> tokens w' = tokens w
            \<and> token_index w' = (token_index w + 1) mod length (tokens w))
       \<and> snd (get_headers w) = w
       \<and> fst (get_headers w) = Inr [(''Authorization'', ''Bearer '' @ tokens w ! token_index w)]
       \<and> (\<exists>w'. switch_token_times (length (tokens w)) w = Inr w'
            \<and> token_index w' = token_index w)"
proof -
  have a: "\<exists>w'. switch_token w = Inr w' \<and> tokens w' = tokens w
            \<and> token_index w' = (token_index w + 1) mod length (tokens w)"
    using assms(1) by (auto simp: switch_token_def Let_def)
  have b: "snd (get_headers w) = w" by (simp add: get_headers_def)
  have c: "fst (get_headers w) = Inr [(''Authorization'', ''Bearer '' @ tokens w ! token_index w)]"
    using assms(2) by (simp add: get_headers_def)
  from switch_token_times_index [OF assms, of "length (tokens w)"] assms(2)
  have d: "\<exists>w'. switch_token_times (length (tokens w)) w = Inr w' \<and> token_index w' = token_index w"
    by auto
  from a b c d show ?thesis by blast
qed

theorem switch_token_cyclic_witness:
  "tokens (initial_world [''t0'', ''t1'', ''t2''] []) \<noteq> []
   \<and> token_index (initial_world [''t0'', ''t1'', ''t2''] [])
       < length (tokens (initial_world [''t0'', ''t1'', ''t2''] []))
   \<and> (\<exists>w'. switch_token (initial_world [''t0'', ''t1'', ''t2''] []) = Inr w'
          \<and> token_index w' = 1)
   \<and> (\<exists>w'. switch_token_times (length (tokens (initial_world [''t0'', ''t1'', ''t2''] [])))
            (initial_world [''t0'', ''t1'', ''t2''] []) = Inr w'
          \<and> token_index w' = 0)"
proof -
  let ?w = "initial_world [''t0'', ''t1'', ''t2''] []"
  have h1: "tokens ?w \<noteq> []" by (simp add: initial_world_def)
  have h2: "token_index ?w < length (tokens ?w)" by (simp add: initial_world_def)
  have i: "token_index ?w = 0" "(0 + 1) mod length (tokens ?w) = 1"
    by (simp_all add: initial_world_def)
  from switch_token_cyclic [OF h1 h2, unfolded i] h1 h2 show ?thesis by blast
qed

section \<open>One iteration of the pull-request loop\<close>


lemma switch_token_rotated: "tokens w \<noteq> [] \<Longrightarrow> switch_token w = Inr (rotated w)"
  by (simp add: switch_token_def rotated_def Let_def)

lemma rotated_fields [simp]:
  "tokens (rotated w) = tokens w"
  "script (rotated w) = script w"
  "requests (rotated w) = requests w"
  "files (rotated w) = files w"
  "token_index (rotated w) = (token_index w + 1) mod length (tokens w)"
  by (simp_all add: rotated_def)

lemma rotated_events:
  "events (rotated w) = events w @ [LogInfo (SwitchedToken (token_index (rotated w))),
                                     Print (SwitchedToken (token_index (rotated w)))]"
  by (simp add: rotated_def)

lemma rotations_rotated [simp]: "rotations (rotated w) = Suc (rotations w)"
  by (simp add: rotations_def rotated_def)

lemma rotations_emit: "rotations (emit evs w) = rotations w + length (filter is_switch evs)"
  by (simp add: rotations_def)

lemma posted_fields [simp]:
  "tokens (posted q vars w) = tokens w"
  "token_index (posted q vars w) = token_index w"
  "script (posted q vars w) = tl (script w)"
  "events (posted q vars w) = events w"
  "files (posted q vars w) = files w"
  by (simp_all add: posted_def)

lemma valid_emit [simp]: "valid (emit evs w) = valid w"
  by (simp add: valid_def)

lemma valid_posted [simp]: "valid (posted q vars w) = valid w"
  by (simp add: valid_def)

lemma valid_rotated: "tokens w \<noteq> [] \<Longrightarrow> valid (rotated w)"
  by (simp add: valid_def)

lemma valid_tokens: "valid w \<Longrightarrow> tokens w \<noteq> []"
  by (auto simp: valid_def)

lemma post_valid:
  "valid w \<Longrightarrow> script w = r # rs \<Longrightarrow>
     post q vars [(''Authorization'', ''Bearer '' @ tokens w ! token_index w)] w
       = Some (r, posted q vars w)"
  by (simp add: post_def posted_def)

lemma pr_after_valid:
  "valid w \<Longrightarrow>
     pr_after org_name repo_name (x, st, w) =
       (case x of
          Inr Break \<Rightarrow> Exit st w
        | Inr Continue \<Rightarrow> Again st w
        | Inl e \<Rightarrow>
            Again st (rotated (emit
              [LogError (if e = RequestException then NetworkErrorRepo repo_name org_name e
                         else UnexpectedErrorRepo repo_name org_name e),
               Print (if e = RequestException then NetworkErrorRepo repo_name org_name e
                      else UnexpectedErrorRepo repo_name org_name e)] w)))"
  by (auto simp: pr_after_def Let_def switch_token_rotated valid_tokens
      split: sum.splits ctl.splits)

lemma pr_iter_valid:
  "valid w \<Longrightarrow> script w = r # rs \<Longrightarrow>
     pr_iter org_name repo_name st w =
       Some (pr_after org_name repo_name
         (case r of
            Failed e \<Rightarrow> (Inl e, st, posted PullRequestsQuery (pr_variables org_name repo_name st) w)
          | Body data \<Rightarrow>
              pr_handle_data org_name repo_name data st
                (posted PullRequestsQuery (pr_variables org_name repo_name st) w)))"
  by (cases r) (simp_all add: pr_iter_def get_headers_def valid_def post_def posted_def)

lemma pr_iter_empty: "valid w \<Longrightarrow> script w = [] \<Longrightarrow> pr_iter org_name repo_name st w = None"
  by (simp add: pr_iter_def get_headers_def valid_def post_def)

lemma pr_handle_data_valid:
  "valid w \<Longrightarrow> pr_handle_data org_name repo_name data st w = (x, st', w') \<Longrightarrow> valid w'"
  by (auto simp: pr_handle_data_def Let_def switch_token_rotated valid_tokens valid_rotated
      split: sum.splits bool.splits prod.splits option.splits if_splits)

lemma pr_handle_data_soft:
  "valid w \<Longrightarrow> soft_failure data errs \<Longrightarrow>
     pr_handle_data org_name repo_name data st w =
       (Inr Continue, st,
        rotated (emit [LogError (GraphQLErrorsRepo repo_name org_name errs),
                       Print (GraphQLErrorsRepo repo_name org_name errs)] w))"
  by (cases data)
     (auto simp: pr_handle_data_def Let_def switch_token_rotated valid_tokens)

section \<open>The pull-request loop\<close>

lemma pr_iter_valid_result:
  assumes "valid w" and "pr_iter org_name repo_name st w = Some it"
  shows "(\<forall>e w'. it \<noteq> Raise e w') \<and> valid (iter_world it)"
proof (cases "script w")
  case Nil
  with assms show ?thesis by (simp add: pr_iter_empty)
next
  case (Cons r rs)
  let ?p = "posted PullRequestsQuery (pr_variables org_name repo_name st) w"
  show ?thesis
  proof (cases r)
    case (Failed e)
    with assms Cons show ?thesis
      by (auto simp: pr_iter_valid pr_after_valid valid_rotated valid_tokens)
  next
    case (Body data)
    obtain x st2 w2 where h: "pr_handle_data org_name repo_name data st ?p = (x, st2, w2)"
      by (cases "pr_handle_data org_name repo_name data st ?p") auto
    from assms(1) have "valid ?p" by simp
    from pr_handle_data_valid [OF this h] have v: "valid w2" .
    with assms Cons Body h show ?thesis
      by (auto simp: pr_iter_valid pr_after_valid valid_rotated valid_tokens
          split: sum.splits ctl.splits)
  qed
qed

lemma pr_loop_valid:
  "valid w \<Longrightarrow> pr_loop org_name repo_name st w = Some (r, w') \<Longrightarrow>
     (\<exists>c. r = Inr c) \<and> valid w'"
proof (induction org_name repo_name st w rule: pr_loop.induct)
  case (1 org_name repo_name st w)
  from "1.prems" obtain it where it: "pr_iter org_name repo_name st w = Some it"
    by (auto simp: pr_loop.simps [of org_name repo_name st w] split: option.splits)
  note v = pr_iter_valid_result [OF "1.prems"(1) it]
  show ?case
  proof (cases it)
    case (Exit st1 w1)
    with it "1.prems" v show ?thesis
      by (auto simp: pr_loop.simps [of org_name repo_name st w])
  next
    case (Again st1 w1)
    with it "1.prems" have l: "pr_loop org_name repo_name st1 w1 = Some (r, w')"
      by (simp add: pr_loop.simps [of org_name repo_name st w])
    from v Again have "valid w1" by simp
    from "1.IH" [OF it Again this l] show ?thesis .
  next
    case (Raise e w1)
    with v show ?thesis by simp
  qed
qed

lemma pr_handle_data_Break:
  "pr_handle_data org_name repo_name data st w = (Inr Break, st', w') \<Longrightarrow> no_next_page data"
  by (auto simp: pr_handle_data_def no_next_page_def Let_def
      split: sum.splits bool.splits prod.splits option.splits if_splits)

lemma pr_after_Exit:
  "pr_after org_name repo_name (x, st, w) = Exit st' w' \<Longrightarrow> x = Inr Break \<and> st' = st \<and> w' = w"
  by (auto simp: pr_after_def Let_def split: sum.splits ctl.splits)

lemma pr_iter_Exit:
  assumes "pr_iter org_name repo_name st w = Some (Exit st' w')"
  shows "\<exists>data. script w = Body data # script w' \<and> no_next_page data"
proof -
  have v: "token_index w < length (tokens w)"
  proof (rule ccontr)
    assume "\<not> ?thesis"
    with assms have "pr_after org_name repo_name (Inl IndexError, st, w) = Exit st' w'"
      by (simp add: pr_iter_def get_headers_def)
    from pr_after_Exit [OF this] show False by simp
  qed
  then have vw: "valid w" by (simp add: valid_def)
  from assms vw obtain r rs where s: "script w = r # rs"
    by (cases "script w") (auto simp: pr_iter_empty)
  let ?p = "posted PullRequestsQuery (pr_variables org_name repo_name st) w"
  show ?thesis
  proof (cases r)
    case (Failed e)
    with assms vw s have "pr_after org_name repo_name (Inl e, st, ?p) = Exit st' w'"
      by (simp add: pr_iter_valid)
    from pr_after_Exit [OF this] show ?thesis by simp
  next
    case (Body data)
    obtain x st2 w2 where h: "pr_handle_data org_name repo_name data st ?p = (x, st2, w2)"
      by (cases "pr_handle_data org_name repo_name data st ?p") auto
    with assms vw s Body have "pr_after org_name repo_name (x, st2, w2) = Exit st' w'"
      by (simp add: pr_iter_valid)
    from pr_after_Exit [OF this] have x: "x = Inr Break" "w' = w2" by simp_all
    from pr_handle_data_frame [OF h] have "script w2 = rs" using s by simp
    moreover from h x have "no_next_page data" by (auto dest: pr_handle_data_Break)
    ultimately show ?thesis using s Body x by simp
  qed
qed

lemma pr_loop_exhaustion:
  "pr_loop org_name repo_name st w = Some (Inr c, w') \<Longrightarrow>
     \<exists>used data. script w = used @ Body data # script w' \<and> no_next_page data"
proof (induction org_name repo_name st w rule: pr_loop.induct)
  case (1 org_name repo_name st w)
  from "1.prems" obtain it where it: "pr_iter org_name repo_name st w = Some it"
    by (auto simp: pr_loop.simps [of org_name repo_name st w] split: option.splits)
  show ?case
  proof (cases it)
    case (Exit st1 w1)
    with it "1.prems" have "w1 = w'"
      by (simp add: pr_loop.simps [of org_name repo_name st w])
    with it Exit pr_iter_Exit [of org_name repo_name st w st1 w'] show ?thesis
      by (metis append_Nil)
  next
    case (Again st1 w1)
    with it "1.prems" have l: "pr_loop org_name repo_name st1 w1 = Some (Inr c, w')"
      by (simp add: pr_loop.simps [of org_name repo_name st w])
    from "1.IH" [OF it Again l] obtain used data where
      u: "script w1 = used @ Body data # script w'" "no_next_page data" by blast
    from pr_iter_advances [OF it] Again obtain used0 where "script w = used0 @ script w1"
      by (auto simp: advances_def)
    with u have "script w = (used0 @ used) @ Body data # script w'" by simp
    with u(2) show ?thesis by blast
  next
    case (Raise e w1)
    with it "1.prems" show ?thesis
      by (simp add: pr_loop.simps [of org_name repo_name st w])
  qed
qed

lemma count_states_simulated:
  "count_states (map (\<lambda>s. JObj [(''state'', JStr s)]) states) oc cc =
     (None, oc + spec_open states, cc + spec_closed_or_merged states)"
  by (induction states arbitrary: oc cc) (auto simp: spec_open_def spec_closed_or_merged_def)

lemma pr_handle_data_page:
  "pr_handle_data org_name repo_name (pr_page states has_next c) st w =
     (if has_next
      then (Inr Continue,
            st\<lparr>open_count := open_count st + spec_open states,
               closed_count := closed_count st + spec_closed_or_merged states,
               cursor := c\<rparr>,
            emit [Sleep 1] (emit [Print (FetchedPage repo_name
                (open_count st + spec_open states)
                (closed_count st + spec_closed_or_merged states))] w))
      else (Inr Break,
            st\<lparr>open_count := open_count st + spec_open states,
               closed_count := closed_count st + spec_closed_or_merged states\<rparr>,
            emit [Print (FetchedPage repo_name
                (open_count st + spec_open states)
                (closed_count st + spec_closed_or_merged states))] w))"
  by (simp add: pr_handle_data_def pr_page_def pull_requests_of_def pr_page_info_def ebind_def
      count_states_simulated Let_def)

lemma posted_requests:
  "requests (posted q vars w) = requests w @
     [\<lparr>query = q, variables = vars,
       headers = [(''Authorization'', ''Bearer '' @ tokens w ! token_index w)]\<rparr>]"
  by (simp add: posted_def)

lemma rotations_posted [simp]: "rotations (posted q vars w) = rotations w"
  by (simp add: rotations_def)

lemma spec_counts_append:
  "spec_open (xs @ ys) = spec_open xs + spec_open ys"
  "spec_closed_or_merged (xs @ ys) = spec_closed_or_merged xs + spec_closed_or_merged ys"
  by (simp_all add: spec_open_def spec_closed_or_merged_def)

lemma pr_loop_listing:
  "valid w \<Longrightarrow> script w = pr_listing pages last_states @ rest \<Longrightarrow>
     \<exists>w'. pr_loop org_name repo_name st w =
            Some (Inr (open_count st + spec_open (listed_states pages last_states),
                       closed_count st + spec_closed_or_merged (listed_states pages last_states)),
                  w')
        \<and> script w' = rest \<and> valid w' \<and> tokens w' = tokens w
        \<and> token_index w' = token_index w \<and> rotations w' = rotations w
        \<and> files w' = files w
        \<and> length (requests w') = length (requests w) + length pages + 1
        \<and> filter (\<lambda>r. query r = RepositoriesQuery) (requests w')
            = filter (\<lambda>r. query r = RepositoriesQuery) (requests w)"
proof (induction pages arbitrary: st w)
  case Nil
  then have s: "script w = Body (pr_page last_states False JNull) # rest"
    by (simp add: pr_listing_def)
  show ?case
    using Nil(1) s
    by (simp add: pr_loop.simps [of org_name repo_name st w] pr_iter_valid [OF Nil(1) s]
        pr_handle_data_page pr_after_valid listed_states_def rotations_emit posted_requests)
next
  case (Cons p pages)
  obtain states c where p: "p = (states, c)" by (cases p)
  with Cons.prems have s:
    "script w = Body (pr_page states True c) # (pr_listing pages last_states @ rest)"
    by (simp add: pr_listing_def)
  let ?st1 = "st\<lparr>open_count := open_count st + spec_open states,
                 closed_count := closed_count st + spec_closed_or_merged states,
                 cursor := c\<rparr>"
  let ?w1 = "emit [Sleep 1] (emit [Print (FetchedPage repo_name
                (open_count st + spec_open states)
                (closed_count st + spec_closed_or_merged states))]
              (posted PullRequestsQuery (pr_variables org_name repo_name st) w))"
  have it: "pr_iter org_name repo_name st w = Some (Again ?st1 ?w1)"
    using Cons.prems(1)
    by (simp add: pr_iter_valid [OF Cons.prems(1) s] pr_handle_data_page pr_after_valid)
  have v1: "valid ?w1" using Cons.prems(1) by simp
  have s1: "script ?w1 = pr_listing pages last_states @ rest" using s by simp
  from Cons.IH [OF v1 s1, of ?st1] obtain w' where
    l: "pr_loop org_name repo_name ?st1 ?w1 =
          Some (Inr (open_count ?st1 + spec_open (listed_states pages last_states),
                     closed_count ?st1 + spec_closed_or_merged (listed_states pages last_states)),
                w')"
    and r: "script w' = rest" "valid w'" "tokens w' = tokens ?w1"
      "token_index w' = token_index ?w1" "rotations w' = rotations ?w1" "files w' = files ?w1"
      "length (requests w') = length (requests ?w1) + length pages + 1"
      "filter (\<lambda>r. query r = RepositoriesQuery) (requests w')
         = filter (\<lambda>r. query r = RepositoriesQuery) (requests ?w1)"
    by blast
  have "pr_loop org_name repo_name st w = pr_loop org_name repo_name ?st1 ?w1"
    by (simp add: pr_loop.simps [of org_name repo_name st w] it)
  with l r p show ?case
    by (simp add: listed_states_def spec_counts_append rotations_emit posted_requests)
qed

text \<open>
  Claim C4. For every listing of pull-request state strings, spread over any number of
  pages, \<open>fetch_pull_requests_count\<close> returns as open count the number of states equal
  to OPEN and as closed count the number of states equal to CLOSED or MERGED; a state
  that is none of the three adds to neither and raises nothing. The page
  [OPEN, CLOSED, MERGED, OPEN] is counted as 2 and 2.
\<close>

theorem fetch_pull_requests_count_classifies:
  assumes "valid w" and "script w = pr_listing pages last_states @ rest"
  shows "(\<exists>w'. fetch_pull_requests_count repo_name org_name w =
            Some (Inr (spec_open (listed_states pages last_states),
                       spec_closed_or_merged (listed_states pages last_states)), w'))
       \<and> count_states
           (map (\<lambda>s. JObj [(''state'', JStr s)]) [''OPEN'', ''CLOSED'', ''MERGED'', ''OPEN'']) 0 0
         = (None, 2, 2)"
proof -
  from pr_loop_listing [OF assms, of org_name repo_name
      "\<lparr>open_count = 0, closed_count = 0, cursor = JNull\<rparr>"]
  have "\<exists>w'. fetch_pull_requests_count repo_name org_name w =
            Some (Inr (spec_open (listed_states pages last_states),
                       spec_closed_or_merged (listed_states pages last_states)), w')"
    by (auto simp: fetch_pull_requests_count_def)
  moreover have "count_states
           (map (\<lambda>s. JObj [(''state'', JStr s)]) [''OPEN'', ''CLOSED'', ''MERGED'', ''OPEN'']) 0 0
         = (None, 2, 2)"
    by simp
  ultimately show ?thesis by blast
qed

theorem fetch_pull_requests_count_classifies_witness:
  "valid (initial_world [''t0''] [Body (pr_page [''OPEN'', ''CLOSED'', ''MERGED'', ''OPEN''] False JNull)])
   \<and> (\<exists>w'. fetch_pull_requests_count (JStr ''repo'') ''org''
         (initial_world [''t0''] [Body (pr_page [''OPEN'', ''CLOSED'', ''MERGED'', ''OPEN''] False JNull)])
       = Some (Inr (2, 2), w'))"
proof -
  let ?w = "initial_world [''t0''] [Body (pr_page [''OPEN'', ''CLOSED'', ''MERGED'', ''OPEN''] False JNull)]"
  have v: "valid ?w" by (simp add: valid_def initial_world_def)
  have s: "script ?w = pr_listing [] [''OPEN'', ''CLOSED'', ''MERGED'', ''OPEN''] @ []"
    by (simp add: initial_world_def pr_listing_def)
  have c: "spec_open (listed_states [] [''OPEN'', ''CLOSED'', ''MERGED'', ''OPEN'']) = 2"
    "spec_closed_or_merged (listed_states [] [''OPEN'', ''CLOSED'', ''MERGED'', ''OPEN'']) = 2"
    by (simp_all add: spec_open_def spec_closed_or_merged_def listed_states_def)
  from fetch_pull_requests_count_classifies [OF v s, of "JStr ''repo''" "''org''", unfolded c] v
  show ?thesis by blast
qed

section \<open>Failed attempts of the pull-request loop\<close>

lemma pr_iter_failed:
  assumes "valid w" and "script w = Failed e # rs"
  shows "pr_iter org_name repo_name st w =
     Some (Again st (rotated (emit
       [LogError (if e = RequestException then NetworkErrorRepo repo_name org_name e
                  else UnexpectedErrorRepo repo_name org_name e),
        Print (if e = RequestException then NetworkErrorRepo repo_name org_name e
               else UnexpectedErrorRepo repo_name org_name e)]
       (posted PullRequestsQuery (pr_variables org_name repo_name st) w))))"
  using assms(1) by (simp add: pr_iter_valid [OF assms] pr_after_valid)

lemma pr_iter_soft:
  assumes "valid w" and "script w = Body data # rs" and "soft_failure data errs"
  shows "pr_iter org_name repo_name st w =
     Some (Again st (rotated (emit
       [LogError (GraphQLErrorsRepo repo_name org_name errs),
        Print (GraphQLErrorsRepo repo_name org_name errs)]
       (posted PullRequestsQuery (pr_variables org_name repo_name st) w))))"
  using assms(1,3)
  by (simp add: pr_iter_valid [OF assms(1,2)] pr_handle_data_soft pr_after_valid valid_rotated
      valid_tokens)

lemma failure_cases:
  assumes "failure r"
  obtains (transport) e where "r = Failed e"
  | (soft) data errs where "r = Body data" and "soft_failure data errs"
proof (cases r)
  case (Failed e)
  then show ?thesis by (rule transport)
next
  case (Body data)
  with assms obtain kvs errs where "data = JObj kvs" "map_of kvs ''errors'' = Some errs"
    by (cases data) auto
  with Body show ?thesis by (auto intro: soft)
qed

lemma is_switch_error_messages [simp]:
  "\<not> is_switch (Print (if c then NetworkErrorRepo n g e else UnexpectedErrorRepo n g e))"
  "\<not> is_switch (LogError m)"
  "\<not> is_switch (Print (GraphQLErrorsRepo n g x))"
  by (cases c) simp_all

lemma pr_iter_failure:
  assumes "valid w" and "script w = r # rs" and "failure r"
  shows "\<exists>w'. pr_iter org_name repo_name st w = Some (Again st w')
     \<and> script w' = rs \<and> valid w' \<and> tokens w' = tokens w \<and> files w' = files w
     \<and> token_index w' = (token_index w + 1) mod length (tokens w)
     \<and> rotations w' = rotations w + 1
     \<and> requests w' = requests w @
          [\<lparr>query = PullRequestsQuery, variables = pr_variables org_name repo_name st,
            headers = [(''Authorization'', ''Bearer '' @ tokens w ! token_index w)]\<rparr>]"
  using assms(3)
proof (cases rule: failure_cases)
  case (transport e)
  with assms(2) have s: "script w = Failed e # rs" by simp
  from assms(1) s show ?thesis
    by (simp add: pr_iter_failed [OF assms(1) s] valid_rotated valid_tokens rotations_emit
        posted_requests)
next
  case (soft data errs)
  with assms(2) have s: "script w = Body data # rs" by simp
  from assms(1) s show ?thesis
    by (simp add: pr_iter_soft [OF assms(1) s soft(2)] valid_rotated valid_tokens
        rotations_emit posted_requests)
qed

text \<open>
  Claim C2. With the token list that the start-up check guarantees, the pull-request
  counter never raises, for any repository name, organization name and sequence of
  responses; when it returns, the last response it consumed was a body without
  \<^verbatim>\<open>errors\<close> whose page info reports no next page; and a response that is a transport
  failure or a soft failure is answered by one rotation and another pass of the loop
  with the same counts and cursor, hence the same request variables.
\<close>

theorem fetch_pull_requests_count_only_exit:
  assumes "valid w"
  shows "(\<forall>e w'. fetch_pull_requests_count repo_name org_name w \<noteq> Some (Inl e, w'))
       \<and> (\<forall>c w'. fetch_pull_requests_count repo_name org_name w = Some (Inr c, w') \<longrightarrow>
             (\<exists>used data. script w = used @ Body data # script w' \<and> no_next_page data))
       \<and> (\<forall>st r rs. script w = r # rs \<and> failure r \<longrightarrow>
             (\<exists>w'. pr_iter org_name repo_name st w = Some (Again st w')
                 \<and> pr_loop org_name repo_name st w = pr_loop org_name repo_name st w'
                 \<and> script w' = rs \<and> valid w' \<and> rotations w' = rotations w + 1
                 \<and> map variables (requests w')
                     = map variables (requests w) @ [pr_variables org_name repo_name st]))"
proof (intro conjI allI impI)
  fix e w'
  show "fetch_pull_requests_count repo_name org_name w \<noteq> Some (Inl e, w')"
    using pr_loop_valid [OF assms, of org_name repo_name _ "Inl e" w']
    by (auto simp: fetch_pull_requests_count_def)
next
  fix c w'
  assume "fetch_pull_requests_count repo_name org_name w = Some (Inr c, w')"
  then show "\<exists>used data. script w = used @ Body data # script w' \<and> no_next_page data"
    unfolding fetch_pull_requests_count_def by (rule pr_loop_exhaustion)
next
  fix st r rs
  assume a: "script w = r # rs \<and> failure r"
  then have s: "script w = r # rs" and f: "failure r" by simp_all
  from pr_iter_failure [OF assms s f, of org_name repo_name st] obtain w' where
    it: "pr_iter org_name repo_name st w = Some (Again st w')"
    and r: "script w' = rs" "valid w'" "rotations w' = rotations w + 1"
      "requests w' = requests w @
          [\<lparr>query = PullRequestsQuery, variables = pr_variables org_name repo_name st,
            headers = [(''Authorization'', ''Bearer '' @ tokens w ! token_index w)]\<rparr>]"
    by blast
  have "pr_loop org_name repo_name st w = pr_loop org_name repo_name st w'"
    by (simp add: pr_loop.simps [of org_name repo_name st w] it)
  with it r show "\<exists>w'. pr_iter org_name repo_name st w = Some (Again st w')
                 \<and> pr_loop org_name repo_name st w = pr_loop org_name repo_name st w'
                 \<and> script w' = rs \<and> valid w' \<and> rotations w' = rotations w + 1
                 \<and> map variables (requests w')
                     = map variables (requests w) @ [pr_variables org_name repo_name st]"
    by auto
qed

section \<open>The result of the pull-request loop depends on the script only\<close>

lemma pr_handle_data_script_only:
  "tokens w \<noteq> [] \<Longrightarrow> tokens v \<noteq> [] \<Longrightarrow>
     fst (pr_handle_data org_name repo_name data st w)
       = fst (pr_handle_data org_name repo_name data st v)
     \<and> fst (snd (pr_handle_data org_name repo_name data st w))
       = fst (snd (pr_handle_data org_name repo_name data st v))"
  by (simp add: pr_handle_data_def Let_def switch_token_rotated
      split: sum.splits bool.splits prod.splits option.splits)

lemma pr_after_same_step:
  "valid w \<Longrightarrow> valid v \<Longrightarrow> script w = script v \<Longrightarrow>
     same_step (pr_after org_name repo_name (x, st, w)) (pr_after org_name repo_name (x, st, v))"
  by (auto simp: pr_after_valid valid_rotated valid_tokens split: sum.splits ctl.splits)

lemma pr_iter_script_only:
  assumes "valid w" and "valid v" and "script w = script v"
  shows "(pr_iter org_name repo_name st w = None \<and> pr_iter org_name repo_name st v = None)
       \<or> (\<exists>a b. pr_iter org_name repo_name st w = Some a
              \<and> pr_iter org_name repo_name st v = Some b \<and> same_step a b)"
proof (cases "script w")
  case Nil
  with assms show ?thesis by (simp add: pr_iter_empty)
next
  case (Cons r rs)
  with assms have sv: "script v = r # rs" by simp
  let ?pw = "posted PullRequestsQuery (pr_variables org_name repo_name st) w"
  let ?pv = "posted PullRequestsQuery (pr_variables org_name repo_name st) v"
  have p: "valid ?pw" "valid ?pv" "script ?pw = script ?pv"
    using assms by simp_all
  show ?thesis
  proof (cases r)
    case (Failed e)
    with Cons sv p show ?thesis
      by (simp add: pr_iter_valid [OF assms(1) Cons] pr_iter_valid [OF assms(2) sv]
          pr_after_same_step)
  next
    case (Body data)
    obtain x st2 w2 where hw: "pr_handle_data org_name repo_name data st ?pw = (x, st2, w2)"
      by (cases "pr_handle_data org_name repo_name data st ?pw") auto
    obtain y st3 v2 where hv: "pr_handle_data org_name repo_name data st ?pv = (y, st3, v2)"
      by (cases "pr_handle_data org_name repo_name data st ?pv") auto
    from pr_handle_data_script_only [of ?pw ?pv org_name repo_name data st] p hw hv
    have e: "y = x" "st3 = st2" by (simp_all add: valid_tokens)
    from pr_handle_data_valid [OF p(1) hw] pr_handle_data_valid [OF p(2) hv]
      pr_handle_data_frame [OF hw] pr_handle_data_frame [OF hv] p(3)
    have "valid w2" "valid v2" "script w2 = script v2" by simp_all
    from pr_after_same_step [OF this] Body hw hv e show ?thesis
      by (simp add: pr_iter_valid [OF assms(1) Cons] pr_iter_valid [OF assms(2) sv])
  qed
qed

lemma pr_loop_script_only:
  "valid w \<Longrightarrow> valid v \<Longrightarrow> script w = script v \<Longrightarrow>
     outcome (pr_loop org_name repo_name st w) = outcome (pr_loop org_name repo_name st v)"
proof (induction org_name repo_name st w arbitrary: v rule: pr_loop.induct)
  case (1 org_name repo_name st w)
  from pr_iter_script_only [OF "1.prems", of org_name repo_name st]
  show ?case
  proof (elim disjE conjE exE)
    assume "pr_iter org_name repo_name st w = None" "pr_iter org_name repo_name st v = None"
    then show ?thesis
      by (simp add: pr_loop.simps [of org_name repo_name st w]
          pr_loop.simps [of org_name repo_name st v])
  next
    fix a b
    assume a: "pr_iter org_name repo_name st w = Some a"
      and b: "pr_iter org_name repo_name st v = Some b" and s: "same_step a b"
    show ?thesis
    proof (cases a)
      case (Exit st1 w1)
      with s obtain v1 where "b = Exit st1 v1" "script w1 = script v1"
        by (cases b) auto
      with a b Exit show ?thesis
        by (simp add: pr_loop.simps [of org_name repo_name st w]
            pr_loop.simps [of org_name repo_name st v] outcome_def)
    next
      case (Again st1 w1)
      with s obtain v1 where b1: "b = Again st1 v1" and
        r: "valid w1" "valid v1" "script w1 = script v1"
        by (cases b) auto
      from "1.IH" [OF a Again r] a b Again b1 show ?thesis
        by (simp add: pr_loop.simps [of org_name repo_name st w]
            pr_loop.simps [of org_name repo_name st v])
    next
      case (Raise e w1)
      with s show ?thesis by simp
    qed
  qed
qed

theorem fetch_pull_requests_count_only_exit_witness:
  "valid (initial_world [''t0'', ''t1''] [Failed RequestException, Body (pr_page [''OPEN''] False JNull)])
   \<and> failure (Failed RequestException)
   \<and> (\<exists>w'. pr_iter ''org'' (JStr ''repo'') \<lparr>open_count = 0, closed_count = 0, cursor = JNull\<rparr>
              (initial_world [''t0'', ''t1'']
                 [Failed RequestException, Body (pr_page [''OPEN''] False JNull)])
            = Some (Again \<lparr>open_count = 0, closed_count = 0, cursor = JNull\<rparr> w')
          \<and> script w' = [Body (pr_page [''OPEN''] False JNull)] \<and> rotations w' = 1)
   \<and> (\<exists>w'. fetch_pull_requests_count (JStr ''repo'') ''org''
              (initial_world [''t0'', ''t1'']
                 [Failed RequestException, Body (pr_page [''OPEN''] False JNull)])
            = Some (Inr (1, 0), w')
          \<and> (\<exists>used data. [Failed RequestException, Body (pr_page [''OPEN''] False JNull)]
                 = used @ Body data # script w' \<and> no_next_page data))"
proof -
  let ?rs = "[Body (pr_page [''OPEN''] False JNull)]"
  let ?w = "initial_world [''t0'', ''t1''] (Failed RequestException # ?rs)"
  let ?st = "\<lparr>open_count = 0, closed_count = 0, cursor = JNull\<rparr>"
  have v: "valid ?w" by (simp add: valid_def initial_world_def)
  have s: "script ?w = Failed RequestException # ?rs" by (simp add: initial_world_def)
  have r0: "rotations ?w = 0" by (simp add: rotations_def initial_world_def)
  note t = fetch_pull_requests_count_only_exit [OF v, of "JStr ''repo''" "''org''"]
  from t s obtain w1 where
    it: "pr_iter ''org'' (JStr ''repo'') ?st ?w = Some (Again ?st w1)"
    and l: "pr_loop ''org'' (JStr ''repo'') ?st ?w = pr_loop ''org'' (JStr ''repo'') ?st w1"
    and w1: "script w1 = ?rs" "valid w1" "rotations w1 = rotations ?w + 1"
    by (metis failure.simps(1))
  have "script w1 = pr_listing [] [''OPEN''] @ []" using w1(1) by (simp add: pr_listing_def)
  from pr_loop_listing [OF w1(2) this, of "''org''" "JStr ''repo''" ?st] l
  obtain w' where f: "fetch_pull_requests_count (JStr ''repo'') ''org'' ?w = Some (Inr (1, 0), w')"
    by (auto simp: fetch_pull_requests_count_def listed_states_def spec_open_def
        spec_closed_or_merged_def)
  with t have "\<exists>used data. script ?w = used @ Body data # script w' \<and> no_next_page data"
    by blast
  with f s it w1 r0 v show ?thesis by auto
qed

text \<open>
  Claim C10. In the pull-request counter a soft failure (a body with \<^verbatim>\<open>errors\<close>) or
  a transport failure leaves the open count, the closed count and the cursor as they
  were before the attempt: the pass of the loop goes round with the local state it
  started with. So the loop returns what it returns when the failed response never
  arrives: the counts and the unconsumed responses are those of the run on the rest of
  the script, and a page that fails in one of these two ways and is then retried is
  counted once.
\<close>

theorem failed_attempt_before_counting_is_atomic:
  assumes "valid w" and "script w = r # rs" and "failure r"
  shows "(\<exists>w'. pr_iter org_name repo_name st w = Some (Again st w') \<and> script w' = rs)
       \<and> outcome (pr_loop org_name repo_name st w)
           = outcome (pr_loop org_name repo_name st (w\<lparr>script := rs\<rparr>))"
proof -
  from pr_iter_failure [OF assms, of org_name repo_name st] obtain w' where
    it: "pr_iter org_name repo_name st w = Some (Again st w')"
    and r: "script w' = rs" "valid w'" by blast
  have l: "pr_loop org_name repo_name st w = pr_loop org_name repo_name st w'"
    by (simp add: pr_loop.simps [of org_name repo_name st w] it)
  have "valid (w\<lparr>script := rs\<rparr>)" using assms(1) by (simp add: valid_def)
  from pr_loop_script_only [OF r(2) this, of org_name repo_name st] r(1) l
  have "outcome (pr_loop org_name repo_name st w)
           = outcome (pr_loop org_name repo_name st (w\<lparr>script := rs\<rparr>))" by simp
  with it r(1) show ?thesis by blast
qed

theorem failed_attempt_before_counting_is_atomic_witness:
  "valid (initial_world [''t0'', ''t1'']
      [Body (JObj [(''errors'', JList [JStr ''rate limited''])]), Body (pr_page [''OPEN''] False JNull)])
   \<and> failure (Body (JObj [(''errors'', JList [JStr ''rate limited''])]))
   \<and> outcome (pr_loop ''org'' (JStr ''repo'') \<lparr>open_count = 0, closed_count = 0, cursor = JNull\<rparr>
       (initial_world [''t0'', ''t1'']
          [Body (JObj [(''errors'', JList [JStr ''rate limited''])]),
           Body (pr_page [''OPEN''] False JNull)]))
     = Some (Inr (1, 0), [])"
proof -
  let ?soft = "Body (JObj [(''errors'', JList [JStr ''rate limited''])])"
  let ?rs = "[Body (pr_page [''OPEN''] False JNull)]"
  let ?w = "initial_world [''t0'', ''t1''] (?soft # ?rs)"
  let ?st = "\<lparr>open_count = 0, closed_count = 0, cursor = JNull\<rparr>"
  have v: "valid ?w" by (simp add: valid_def initial_world_def)
  have s: "script ?w = ?soft # ?rs" by (simp add: initial_world_def)
  have f: "failure ?soft" by simp
  have v2: "valid (?w\<lparr>script := ?rs\<rparr>)" by (simp add: valid_def initial_world_def)
  have "script (?w\<lparr>script := ?rs\<rparr>) = pr_listing [] [''OPEN''] @ []"
    by (simp add: pr_listing_def)
  from pr_loop_listing [OF v2 this, of "''org''" "JStr ''repo''" ?st]
  have "outcome (pr_loop ''org'' (JStr ''repo'') ?st (?w\<lparr>script := ?rs\<rparr>)) = Some (Inr (1, 0), [])"
    by (auto simp: outcome_def listed_states_def spec_open_def spec_closed_or_merged_def)
  with failed_attempt_before_counting_is_atomic [OF v s f, of "''org''" "JStr ''repo''" ?st] v f
  show ?thesis by simp
qed

text \<open>
  The handler of line 102 catches a third kind of exception, which is neither of the
  two failures above: one raised while the states of a decoded page are counted. Here
  the nodes of the first page are an open pull request and \<^verbatim>\<open>null\<close>: the open one is
  counted, \<^verbatim>\<open>pr["state"]\<close> raises \<^verbatim>\<open>TypeError\<close> on the second, the handler
  rotates, and the loop goes round with the open count at 1. The next page has one
  open pull request, and the counter returns 2.
\<close>

lemma exception_while_counting_keeps_counts:
  "map_option retried
     (pr_iter ''org'' (JStr ''repo'') \<lparr>open_count = 0, closed_count = 0, cursor = JNull\<rparr>
        (initial_world [''t0'', ''t1'']
           [Body (JObj [(''data'', JObj [(''repository'', JObj [(''pullRequests'', JObj
              [(''nodes'', JList [JObj [(''state'', JStr ''OPEN'')], JNull]),
               (''pageInfo'', JObj [(''endCursor'', JNull), (''hasNextPage'', JBool False)])])])])]),
            Body (pr_page [''OPEN''] False JNull)]))
     = Some (Some \<lparr>open_count = 1, closed_count = 0, cursor = JNull\<rparr>)
   \<and> map_option retried
     (pr_iter ''org'' (JStr ''repo'') \<lparr>open_count = 0, closed_count = 0, cursor = JNull\<rparr>
        (initial_world [''t0'', ''t1'']
           [Body (JObj [(''data'', JObj [(''repository'', JObj [(''pullRequests'', JObj
              [(''nodes'', JList [JObj [(''state'', JStr ''OPEN'')], JNull]),
               (''pageInfo'', JObj [(''endCursor'', JNull), (''hasNextPage'', JBool False)])])])])]),
            Body (pr_page [''OPEN''] False JNull)]))
     \<noteq> Some (Some \<lparr>open_count = 0, closed_count = 0, cursor = JNull\<rparr>)
   \<and> outcome (fetch_pull_requests_count (JStr ''repo'') ''org''
        (initial_world [''t0'', ''t1'']
           [Body (JObj [(''data'', JObj [(''repository'', JObj [(''pullRequests'', JObj
              [(''nodes'', JList [JObj [(''state'', JStr ''OPEN'')], JNull]),
               (''pageInfo'', JObj [(''endCursor'', JNull), (''hasNextPage'', JBool False)])])])])]),
            Body (pr_page [''OPEN''] False JNull)]))
     = Some (Inr (2, 0), [])"
proof -
  let ?bad = "JObj [(''data'', JObj [(''repository'', JObj [(''pullRequests'', JObj
              [(''nodes'', JList [JObj [(''state'', JStr ''OPEN'')], JNull]),
               (''pageInfo'', JObj [(''endCursor'', JNull), (''hasNextPage'', JBool False)])])])])]"
  let ?rs = "[Body (pr_page [''OPEN''] False JNull)]"
  let ?w = "initial_world [''t0'', ''t1''] (Body ?bad # ?rs)"
  let ?st = "\<lparr>open_count = 0, closed_count = 0, cursor = JNull\<rparr>"
  let ?st1 = "\<lparr>open_count = 1, closed_count = 0, cursor = JNull\<rparr>"
  let ?p = "posted PullRequestsQuery (pr_variables ''org'' (JStr ''repo'') ?st) ?w"
  let ?w1 = "rotated (emit [LogError (UnexpectedErrorRepo (JStr ''repo'') ''org'' TypeError),
                            Print (UnexpectedErrorRepo (JStr ''repo'') ''org'' TypeError)] ?p)"
  have v: "valid ?w" by (simp add: valid_def initial_world_def)
  have s: "script ?w = Body ?bad # ?rs" by (simp add: initial_world_def)
  have h: "pr_handle_data ''org'' (JStr ''repo'') ?bad ?st ?p = (Inl TypeError, ?st1, ?p)"
    by (simp add: pr_handle_data_def pull_requests_of_def ebind_def)
  have it: "pr_iter ''org'' (JStr ''repo'') ?st ?w = Some (Again ?st1 ?w1)"
    using v by (simp add: pr_iter_valid [OF v s] h pr_after_valid)
  have v1: "valid ?w1" using v by (simp add: valid_rotated valid_tokens)
  have "script ?w1 = pr_listing [] [''OPEN''] @ []"
    by (simp add: pr_listing_def initial_world_def)
  from pr_loop_listing [OF v1 this, of "''org''" "JStr ''repo''" ?st1]
  have "outcome (pr_loop ''org'' (JStr ''repo'') ?st1 ?w1) = Some (Inr (2, 0), [])"
    by (auto simp: outcome_def listed_states_def spec_open_def spec_closed_or_merged_def)
  then have "outcome (fetch_pull_requests_count (JStr ''repo'') ''org'' ?w) = Some (Inr (2, 0), [])"
    by (simp add: fetch_pull_requests_count_def
        pr_loop.simps [of "''org''" "JStr ''repo''" ?st ?w] it)
  with it show ?thesis by simp
qed

section \<open>Invariants of the repository loop\<close>

lemma build_repo_info_valid:
  "valid w \<Longrightarrow> build_repo_info org_name repo w = Some (r, w') \<Longrightarrow> valid w'"
  by (auto simp: build_repo_info_def fetch_pull_requests_count_def
      split: sum.splits option.splits prod.splits dest: pr_loop_valid)

lemma kept_emit: "kept org_name I \<Longrightarrow> I rows w \<Longrightarrow> I rows (emit evs w)"
  by (simp add: kept_def)

lemma kept_rotated: "kept org_name I \<Longrightarrow> I rows w \<Longrightarrow> valid w \<Longrightarrow> I rows (rotated w)"
  by (simp add: kept_def)

lemma kept_posted:
  "kept org_name I \<Longrightarrow> I rows w \<Longrightarrow> script w \<noteq> [] \<Longrightarrow> I rows (posted q vars w)"
  by (simp add: kept_def)

lemma kept_built:
  "kept org_name I \<Longrightarrow> I rows w \<Longrightarrow> valid w \<Longrightarrow>
     build_repo_info org_name repo w = Some (Inr info, w') \<Longrightarrow> I (rows @ [info]) w'"
  unfolding kept_def by blast

lemma kept_skipped:
  "kept org_name I \<Longrightarrow> I rows w \<Longrightarrow> valid w \<Longrightarrow>
     build_repo_info org_name repo w = Some (Inl e, w') \<Longrightarrow> I rows w'"
  unfolding kept_def by blast

text \<open>
  A property \<open>I\<close> of the rows gathered so far and of the state, kept by the log and by
  each record whether it yields a row or is skipped, holds when the \<^verbatim>\<open>for\<close> loop
  is left.
\<close>

lemma process_repos_inv:
  assumes k: "kept org_name I"
  shows "valid w \<Longrightarrow> I rows w \<Longrightarrow>
     process_repos org_name repos rows w = Some (x, rows', w') \<Longrightarrow> valid w' \<and> I rows' w'"
proof (induction repos arbitrary: rows w)
  case Nil
  then show ?case by simp
next
  case (Cons repo rest)
  note emit = kept_emit [OF k] and built = kept_built [OF k] and skipped = kept_skipped [OF k]
  show ?case
  proof (cases "repo = JNull")
    case True
    let ?w1 = "emit [LogError (EntryIsNone org_name), Print (EntryIsNone org_name)] w"
    from True Cons.prems have "process_repos org_name rest rows ?w1 = Some (x, rows', w')"
      by simp
    moreover have "valid ?w1" "I rows ?w1" using Cons.prems by (simp_all add: emit)
    ultimately show ?thesis using Cons.IH by blast
  next
    case False
    with Cons.prems obtain b w1 where b: "build_repo_info org_name repo w = Some (b, w1)"
      by (auto split: option.splits)
    note v1 = build_repo_info_valid [OF Cons.prems(1) b]
    show ?thesis
    proof (cases b)
      case (Inr info)
      with Cons.prems False b have
        "process_repos org_name rest (rows @ [info]) w1 = Some (x, rows', w')" by simp
      moreover from built [OF Cons.prems(2,1)] b Inr have "I (rows @ [info]) w1" by simp
      ultimately show ?thesis using v1 Cons.IH by blast
    next
      case (Inl e)
      from skipped [OF Cons.prems(2,1)] b Inl have i1: "I rows w1" by simp
      show ?thesis
      proof (cases "py_get repo ''name'' (JStr ''N/A'')")
        case (Inl e')
        with Cons.prems False b \<open>b = Inl e\<close> v1 i1 show ?thesis by simp
      next
        case (Inr n)
        let ?w2 = "emit [LogError (ErrorProcessingRepo n org_name e),
                         Print (ErrorProcessingRepo n org_name e)] w1"
        from Inr Cons.prems False b \<open>b = Inl e\<close> have
          "process_repos org_name rest rows ?w2 = Some (x, rows', w')" by simp
        moreover have "valid ?w2" "I rows ?w2" using v1 i1 by (simp_all add: emit)
        ultimately show ?thesis using Cons.IH by blast
      qed
    qed
  qed
qed

lemma kept_True: "kept org_name (\<lambda>rows w. True)"
  by (simp add: kept_def)

lemma process_repos_valid:
  "valid w \<Longrightarrow> process_repos org_name repos rows w = Some (x, rows', w') \<Longrightarrow> valid w'"
  using process_repos_inv [OF kept_True] by blast

lemma org_after_valid:
  "valid w \<Longrightarrow>
     org_after org_name (x, st, w) =
       (case x of
          Inr Break \<Rightarrow> Exit st w
        | Inr Continue \<Rightarrow> Again st w
        | Inl e \<Rightarrow>
            Again st (rotated (emit
              [LogError (if e = RequestException then NetworkErrorOrg org_name e
                         else UnexpectedErrorOrg org_name e),
               Print (if e = RequestException then NetworkErrorOrg org_name e
                      else UnexpectedErrorOrg org_name e)] w)))"
  by (auto simp: org_after_def Let_def switch_token_rotated valid_tokens
      split: sum.splits ctl.splits)

lemma org_iter_valid:
  "valid w \<Longrightarrow> script w = r # rs \<Longrightarrow>
     org_iter org_name st w =
       (case r of
          Failed e \<Rightarrow>
            Some (org_after org_name
              (Inl e, st, posted RepositoriesQuery (org_variables org_name st) w))
        | Body data \<Rightarrow>
            map_option (org_after org_name)
              (org_handle_data org_name data st
                 (posted RepositoriesQuery (org_variables org_name st) w)))"
  by (cases r)
     (auto simp: org_iter_def get_headers_def valid_def post_def posted_def split: option.splits)

lemma org_iter_empty: "valid w \<Longrightarrow> script w = [] \<Longrightarrow> org_iter org_name st w = None"
  by (simp add: org_iter_def get_headers_def valid_def post_def)

lemma org_handle_data_inv:
  assumes k: "kept org_name I"
    and v: "valid w" and i: "I (repo_details st) w"
    and h: "org_handle_data org_name data st w = Some (x, st', w')"
  shows "valid w' \<and> I (repo_details st') w'"
proof -
  have pr: "\<And>items x rows' w1.
      process_repos org_name items (repo_details st) w = Some (x, rows', w1) \<Longrightarrow>
      valid w1 \<and> I rows' w1"
    using process_repos_inv [OF k v i] by blast
  note emit = kept_emit [OF k] and rot = kept_rotated [OF k]
  have e2: "\<And>evs. valid (rotated (emit evs w)) \<and> I (repo_details st) (rotated (emit evs w))"
    using v i by (simp add: emit rot valid_rotated valid_tokens)
  show ?thesis
  proof (cases "py_in ''errors'' data = Inr False")
    case False
    with h v i e2 show ?thesis
      by (auto simp: org_handle_data_def Let_def switch_token_rotated valid_tokens
          split: sum.splits bool.splits)
  next
    case True
    show ?thesis
    proof (cases "page_parts data")
      case (Inl e)
      with True h v i show ?thesis by (simp add: org_handle_data_def)
    next
      case (Inr parts)
      obtain repos has_next_page c where parts: "parts = (repos, has_next_page, c)"
        by (cases parts)
      show ?thesis
      proof (cases "py_truthy repos")
        case False
        with True Inr parts h v i show ?thesis
          by (auto simp: org_handle_data_def Let_def emit)
      next
        case t: True
        show ?thesis
        proof (cases "py_iter repos")
          case (Inl e)
          with t True Inr parts h v i show ?thesis
            by (auto simp: org_handle_data_def Let_def)
        next
          case items: (Inr items)
          with t True Inr parts h obtain y rows1 w1 where
            p: "process_repos org_name items (repo_details st) w = Some (y, rows1, w1)"
            by (auto simp: org_handle_data_def Let_def split: option.splits)
          from pr [OF p] have r: "valid w1" "I rows1 w1" by simp_all
          from t True Inr parts items h p r show ?thesis
            by (auto simp: org_handle_data_def Let_def emit split: option.splits if_splits)
        qed
      qed
    qed
  qed
qed

lemma org_iter_inv:
  assumes k: "kept org_name I"
    and v: "valid w" and i: "I (repo_details st) w"
    and it: "org_iter org_name st w = Some it"
  shows "\<exists>st' w'. (it = Exit st' w' \<or> it = Again st' w') \<and> valid w' \<and> I (repo_details st') w'"
proof (cases "script w")
  case Nil
  with v it show ?thesis by (simp add: org_iter_empty)
next
  case (Cons r rs)
  note emit = kept_emit [OF k] and rot = kept_rotated [OF k] and sent = kept_posted [OF k]
  let ?p = "posted RepositoriesQuery (org_variables org_name st) w"
  have p: "valid ?p" "I (repo_details st) ?p" using v i Cons by (simp_all add: sent)
  have after: "\<And>x st2 w2. valid w2 \<Longrightarrow> I (repo_details st2) w2 \<Longrightarrow>
      \<exists>st' w'. (org_after org_name (x, st2, w2) = Exit st' w'
                \<or> org_after org_name (x, st2, w2) = Again st' w')
              \<and> valid w' \<and> I (repo_details st') w'"
    by (auto simp: org_after_valid emit rot valid_rotated valid_tokens
        split: sum.splits ctl.splits)
  show ?thesis
  proof (cases r)
    case (Failed e)
    with it v Cons have "it = org_after org_name (Inl e, st, ?p)"
      by (simp add: org_iter_valid)
    with after [OF p] show ?thesis by simp
  next
    case (Body data)
    with it v Cons obtain x st2 w2 where
      h: "org_handle_data org_name data st ?p = Some (x, st2, w2)"
      and a: "it = org_after org_name (x, st2, w2)"
      by (auto simp: org_iter_valid)
    from org_handle_data_inv [OF k p h]
    have "valid w2" "I (repo_details st2) w2" by simp_all
    from after [OF this] a show ?thesis by simp
  qed
qed

lemma org_loop_inv:
  assumes k: "kept org_name I"
  shows "valid w \<Longrightarrow> I (repo_details st) w \<Longrightarrow> org_loop org_name st w = Some (r, w') \<Longrightarrow>
     \<exists>rows. r = Inr rows \<and> valid w' \<and> I rows w'"
proof (induction "budget w" arbitrary: st w rule: less_induct)
  case less
  from less.prems(3) obtain it where it: "org_iter org_name st w = Some it"
    by (auto simp: org_loop.simps [of org_name st w] split: option.splits)
  from org_iter_inv [OF k less.prems(1,2) it]
  obtain st1 w1 where c: "it = Exit st1 w1 \<or> it = Again st1 w1"
    and r: "valid w1" "I (repo_details st1) w1" by blast
  from c show ?case
  proof
    assume "it = Exit st1 w1"
    with it less.prems(3) r show ?thesis
      by (auto simp: org_loop.simps [of org_name st w])
  next
    assume a: "it = Again st1 w1"
    with it less.prems(3) have l: "org_loop org_name st1 w1 = Some (r, w')"
      by (simp add: org_loop.simps [of org_name st w])
    from it a have "budget w1 < budget w" by (simp add: org_iter_budget)
    from less.hyps [OF this r l] show ?thesis .
  qed
qed


section \<open>The rows of the report\<close>

lemma repo_head_Inr:
  "repo_head repo = Inr items \<Longrightarrow>
     \<exists>name is_private disk_usage default_branch total_commits last_pusher.
       name_of repo = Inr name \<and>
       items = [(''Repository Name'', name), (''Visibility'', is_private),
                (''Size (KB)'', disk_usage), (''Default Branch'', default_branch),
                (''Total Commits'', total_commits), (''Last Pusher'', last_pusher)]"
  by (auto simp: repo_head_def ebind_def split: sum.splits)

lemma repo_tail_Inr:
  "repo_tail repo = Inr items \<Longrightarrow>
     \<exists>open_issues closed_issues languages total_releases total_tags last_pushed_at
        last_updated_at is_archived.
       items = [(''Open Issues'', open_issues), (''Closed Issues'', closed_issues),
                (''Languages'', languages), (''Total Releases'', total_releases),
                (''Total Tags'', total_tags), (''Last Pushed At'', last_pushed_at),
                (''Last Updated At'', last_updated_at), (''Archived'', is_archived)]"
  by (auto simp: repo_tail_def ebind_def split: sum.splits)

lemma build_repo_info_Inr:
  assumes "build_repo_info org_name repo w = Some (Inr info, w')"
  shows "\<exists>name oc cc.
     fetch_pull_requests_count name org_name w = Some (Inr (oc, cc), w')
     \<and> map fst info = fieldnames
     \<and> map_of info ''Repository Name'' = Some name
     \<and> map_of info ''Open Pull Requests'' = Some (JInt (int oc))
     \<and> map_of info ''Closed Pull Requests'' = Some (JInt (int cc))"
proof -
  from assms obtain hd_items tl_items name oc cc where
    h: "repo_head repo = Inr hd_items" and n: "name_of repo = Inr name"
    and f: "fetch_pull_requests_count name org_name w = Some (Inr (oc, cc), w')"
    and t: "repo_tail repo = Inr tl_items"
    and i: "info = hd_items @ [(''Open Pull Requests'', JInt (int oc)),
                               (''Closed Pull Requests'', JInt (int cc))] @ tl_items"
    by (auto simp: build_repo_info_def split: sum.splits option.splits prod.splits)
  from repo_head_Inr [OF h] repo_tail_Inr [OF t] n i f show ?thesis
    by (auto simp: fieldnames_def)
qed

lemma advances_rotated [simp]: "advances w (rotated w)"
  by (simp add: advances_def rotated_def)

lemma advances_posted: "script w \<noteq> [] \<Longrightarrow> advances w (posted q vars w)"
  by (cases "script w") (simp_all add: advances_def posted_def)

lemma kept_rows:
  assumes "\<forall>repo w info w'. advances w0 w
      \<and> build_repo_info org_name repo w = Some (Inr info, w') \<longrightarrow> P info"
  shows "kept org_name (\<lambda>rows w. advances w0 w \<and> (\<forall>row \<in> set rows. P row))"
proof -
  have b: "\<And>repo w x w'. advances w0 w \<Longrightarrow> build_repo_info org_name repo w = Some (x, w')
      \<Longrightarrow> advances w0 w'"
    by (blast intro: advances_trans dest: build_repo_info_advances)
  have r: "\<And>w. advances w0 w \<Longrightarrow> advances w0 (rotated w)"
    by (blast intro: advances_trans advances_rotated)
  have p: "\<And>w q vars. advances w0 w \<Longrightarrow> script w \<noteq> [] \<Longrightarrow> advances w0 (posted q vars w)"
    by (blast intro: advances_trans advances_posted)
  show ?thesis
    unfolding kept_def using assms
    by (auto intro: advances_emit_right r p b)
qed

lemma fetch_org_repos_rows:
  assumes "\<forall>repo w1 info w2. advances w w1
      \<and> build_repo_info org_name repo w1 = Some (Inr info, w2) \<longrightarrow> P info"
    and "valid w" and "fetch_org_repos org_name w = Some (r, w')"
  shows "\<exists>rows. r = Inr rows \<and> valid w' \<and> advances w w' \<and> (\<forall>row \<in> set rows. P row)"
proof -
  let ?w0 = "emit [Print (FetchingOrg org_name)] w"
  have k: "kept org_name (\<lambda>rows w1. advances w w1 \<and> (\<forall>row \<in> set rows. P row))"
    using assms(1) by (rule kept_rows)
  have "valid ?w0" "advances w ?w0 \<and> (\<forall>row \<in> set (repo_details \<lparr>repo_details = [], org_cursor = JNull\<rparr>). P row)"
    using assms(2) by simp_all
  from org_loop_inv [OF k this] assms(3) show ?thesis
    by (simp add: fetch_org_repos_def)
qed


section \<open>Simulated listings of repositories\<close>

lemma quiet_refl [simp]: "quiet w w"
  by (simp add: quiet_def)

lemma quiet_trans: "quiet w w1 \<Longrightarrow> quiet w1 w2 \<Longrightarrow> quiet w w2"
  by (simp add: quiet_def)

lemma quiet_valid: "quiet w w' \<Longrightarrow> valid w \<Longrightarrow> valid w'"
  by (simp add: quiet_def valid_def)

lemma quiet_emit: "\<not> (\<exists>e \<in> set evs. is_switch e) \<Longrightarrow> quiet w (emit evs w)"
  by (simp add: quiet_def rotations_emit filter_empty_conv)

lemma quiet_posted [simp]: "quiet w (posted q vars w)"
  by (simp add: quiet_def)

lemma repo_requests_emit [simp]: "repo_requests (emit evs w) = repo_requests w"
  by (simp add: repo_requests_def)

lemma pr_requests_emit [simp]: "pr_requests (emit evs w) = pr_requests w"
  by (simp add: pr_requests_def)

lemma pr_loop_listing_quiet:
  assumes "valid w" and "script w = pr_listing pages last_states @ rest"
  shows "\<exists>w'. pr_loop org_name repo_name st w =
            Some (Inr (open_count st + spec_open (listed_states pages last_states),
                       closed_count st + spec_closed_or_merged (listed_states pages last_states)),
                  w')
        \<and> script w' = rest \<and> quiet w w' \<and> repo_requests w' = repo_requests w"
  using pr_loop_listing [OF assms, of org_name repo_name st]
  by (auto simp: quiet_def repo_requests_def)

lemma build_repo_info_simulated:
  assumes v: "valid w" and o: "repo \<noteq> JNull"
    and s: "script w = entry_script (repo, pages, last_states) @ rest"
  shows "\<exists>x w'. build_repo_info org_name repo w = Some (x, w')
     \<and> (case sim_row (repo, pages, last_states) of
          None \<Rightarrow> (\<exists>e. x = Inl e) | Some row \<Rightarrow> x = Inr row)
     \<and> script w' = rest \<and> quiet w w' \<and> repo_requests w' = repo_requests w"
proof (cases "repo_head repo")
  case (Inl e)
  with o s show ?thesis by (simp add: build_repo_info_def)
next
  case (Inr hd_items)
  from repo_head_Inr [OF Inr] obtain name where n: "name_of repo = Inr name" by blast
  from s o Inr have "script w = pr_listing pages last_states @ rest" by simp
  from pr_loop_listing_quiet [OF v this, of org_name name
      "\<lparr>open_count = 0, closed_count = 0, cursor = JNull\<rparr>"]
  obtain w' where
    f: "fetch_pull_requests_count name org_name w =
          Some (Inr (spec_open (listed_states pages last_states),
                     spec_closed_or_merged (listed_states pages last_states)), w')"
    and r: "script w' = rest" "quiet w w'" "repo_requests w' = repo_requests w"
    by (auto simp: fetch_pull_requests_count_def)
  show ?thesis
  proof (cases "repo_tail repo")
    case (Inl e)
    with Inr n f r o show ?thesis by (simp add: build_repo_info_def)
  next
    case tl: (Inr tl_items)
    with Inr n f r o show ?thesis by (simp add: build_repo_info_def)
  qed
qed

lemma sim_rows_Cons:
  "sim_rows (s # sims) = (case sim_row s of None \<Rightarrow> [] | Some row \<Rightarrow> [row]) @ sim_rows sims"
  by (simp add: sim_rows_def map_filter_simps split: option.splits)

lemma sim_rows_Nil [simp]: "sim_rows [] = []"
  by (simp add: sim_rows_def map_filter_simps)

lemma sim_row_null: "sim_row (JNull, pages, last_states) = None"
  by simp

lemma process_repos_simulated:
  "valid w \<Longrightarrow> \<forall>s \<in> set sims. null_or_object (fst s) \<Longrightarrow>
   script w = concat (map entry_script sims) @ rest \<Longrightarrow>
     \<exists>w'. process_repos org_name (map fst sims) rows w = Some (None, rows @ sim_rows sims, w')
        \<and> script w' = rest \<and> quiet w w' \<and> repo_requests w' = repo_requests w"
proof (induction sims arbitrary: rows w)
  case Nil
  then show ?case by simp
next
  case (Cons s sims)
  obtain repo pages last_states where s: "s = (repo, pages, last_states)" by (cases s)
  show ?case
  proof (cases "repo = JNull")
    case True
    let ?w1 = "emit [LogError (EntryIsNone org_name), Print (EntryIsNone org_name)] w"
    have q: "quiet w ?w1" by (simp add: quiet_emit)
    have "valid ?w1" "\<forall>s \<in> set sims. null_or_object (fst s)"
      "script ?w1 = concat (map entry_script sims) @ rest"
      using Cons.prems s True by simp_all
    from Cons.IH [OF this, of rows] obtain w' where
      "process_repos org_name (map fst sims) rows ?w1 = Some (None, rows @ sim_rows sims, w')"
      "script w' = rest" "quiet ?w1 w'" "repo_requests w' = repo_requests ?w1" by blast
    with q s True show ?thesis
      by (auto simp: sim_rows_Cons intro: quiet_trans)
  next
    case False
    with Cons.prems s obtain kvs where kvs: "repo = JObj kvs" by (cases repo) auto
    from Cons.prems s have
      "script w = entry_script (repo, pages, last_states) @ (concat (map entry_script sims) @ rest)"
      by simp
    from build_repo_info_simulated [OF Cons.prems(1) False this, of org_name]
    obtain x w1 where b: "build_repo_info org_name repo w = Some (x, w1)"
      and x: "case sim_row (repo, pages, last_states) of
                None \<Rightarrow> (\<exists>e. x = Inl e) | Some row \<Rightarrow> x = Inr row"
      and r1: "script w1 = concat (map entry_script sims) @ rest" "quiet w w1"
        "repo_requests w1 = repo_requests w" by blast
    note v1 = quiet_valid [OF r1(2) Cons.prems(1)]
    show ?thesis
    proof (cases "sim_row (repo, pages, last_states)")
      case None
      with x obtain e where e: "x = Inl e" by auto
      let ?n = "case map_of kvs ''name'' of None \<Rightarrow> JStr ''N/A'' | Some v \<Rightarrow> v"
      let ?w2 = "emit [LogError (ErrorProcessingRepo ?n org_name e),
                       Print (ErrorProcessingRepo ?n org_name e)] w1"
      have q: "quiet w1 ?w2" by (simp add: quiet_emit)
      have "valid ?w2" "\<forall>s \<in> set sims. null_or_object (fst s)"
        "script ?w2 = concat (map entry_script sims) @ rest"
        using Cons.prems v1 r1 by simp_all
      from Cons.IH [OF this, of rows] obtain w' where
        "process_repos org_name (map fst sims) rows ?w2 = Some (None, rows @ sim_rows sims, w')"
        "script w' = rest" "quiet ?w2 w'" "repo_requests w' = repo_requests ?w2" by blast
      with q r1 s False b e kvs None show ?thesis
        by (auto simp: sim_rows_Cons simp del: sim_row.simps intro: quiet_trans)
    next
      case (Some row)
      with x have e: "x = Inr row" by simp
      have "valid w1" "\<forall>s \<in> set sims. null_or_object (fst s)"
        "script w1 = concat (map entry_script sims) @ rest"
        using Cons.prems v1 r1 by simp_all
      from Cons.IH [OF this, of "rows @ [row]"] obtain w' where
        "process_repos org_name (map fst sims) (rows @ [row]) w1
           = Some (None, (rows @ [row]) @ sim_rows sims, w')"
        "script w' = rest" "quiet w1 w'" "repo_requests w' = repo_requests w1" by blast
      with r1 s False b e Some show ?thesis
        by (auto simp: sim_rows_Cons simp del: sim_row.simps intro: quiet_trans)
    qed
  qed
qed

lemma page_parts_repo_page:
  "page_parts (repo_page entries has_next c) = Inr (JList entries, JBool has_next, c)"
  by (simp add: page_parts_def repo_page_def repositories_of_def ebind_def)

lemma py_in_repo_page: "py_in ''errors'' (repo_page entries has_next c) = Inr False"
  by (simp add: repo_page_def)

lemma repo_requests_posted:
  "repo_requests (posted q vars w) = repo_requests w + (if q = RepositoriesQuery then 1 else 0)"
  by (simp add: repo_requests_def posted_def)

lemma org_iter_page:
  assumes v: "valid w" and o: "\<forall>s \<in> set sims. null_or_object (fst s)"
    and s: "script w = page_script sims has_next c @ rest"
  shows "\<exists>w'. org_iter org_name st w =
            Some ((if sims \<noteq> [] \<and> has_next then Again else Exit)
                    (st\<lparr>org_cursor := c, repo_details := repo_details st @ sim_rows sims\<rparr>) w')
        \<and> script w' = rest \<and> quiet w w' \<and> repo_requests w' = repo_requests w + 1"
proof -
  let ?p = "posted RepositoriesQuery (org_variables org_name st) w"
  let ?data = "repo_page (map fst sims) has_next c"
  from s have s': "script w = Body ?data # (concat (map entry_script sims) @ rest)"
    by (simp add: page_script_def)
  have it: "org_iter org_name st w =
      map_option (org_after org_name) (org_handle_data org_name ?data st ?p)"
    by (simp add: org_iter_valid [OF v s'])
  have vp: "valid ?p" using v by simp
  have sp: "script ?p = concat (map entry_script sims) @ rest" using s' by simp
  show ?thesis
  proof (cases "sims = []")
    case True
    let ?w' = "emit [Print (NoReposFound org_name)] ?p"
    have "org_handle_data org_name ?data st ?p = Some (Inr Break, st\<lparr>org_cursor := c\<rparr>, ?w')"
      using True by (simp add: org_handle_data_def py_in_repo_page page_parts_repo_page)
    with it vp have "org_iter org_name st w = Some (Exit (st\<lparr>org_cursor := c\<rparr>) ?w')"
      by (simp add: org_after_valid)
    moreover have "quiet w ?w'"
      by (simp add: quiet_def rotations_emit)
    ultimately show ?thesis using True sp
      by (auto simp: repo_requests_posted)
  next
    case False
    from process_repos_simulated [OF vp o sp, of org_name "repo_details st"] obtain w1 where
      p: "process_repos org_name (map fst sims) (repo_details st) ?p
            = Some (None, repo_details st @ sim_rows sims, w1)"
      and r: "script w1 = rest" "quiet ?p w1" "repo_requests w1 = repo_requests ?p" by blast
    note v1 = quiet_valid [OF r(2) vp]
    let ?st' = "st\<lparr>org_cursor := c, repo_details := repo_details st @ sim_rows sims\<rparr>"
    let ?w' = "if has_next then emit [Sleep 1] w1 else w1"
    have "org_handle_data org_name ?data st ?p =
        Some (Inr (if has_next then Continue else Break), ?st', ?w')"
      using False p
      by (simp add: org_handle_data_def py_in_repo_page page_parts_repo_page)
    with it v1 have "org_iter org_name st w =
        Some ((if has_next then Again else Exit) ?st' ?w')"
      by (simp add: org_after_valid)
    moreover have "quiet w ?w'"
      using r(2) by (simp add: quiet_def rotations_emit)
    ultimately show ?thesis using False r
      by (auto simp: repo_requests_posted)
  qed
qed

lemma org_loop_listing:
  "valid w \<Longrightarrow>
   \<forall>p \<in> set pages. fst p \<noteq> [] \<and> (\<forall>s \<in> set (fst p). null_or_object (fst s)) \<Longrightarrow>
   \<forall>s \<in> set last_page. null_or_object (fst s) \<Longrightarrow>
   last_flag \<longrightarrow> last_page = [] \<Longrightarrow>
   script w = org_listing pages last_page last_flag @ rest \<Longrightarrow>
     \<exists>w'. org_loop org_name st w =
            Some (Inr (repo_details st @ concat (map (\<lambda>p. sim_rows (fst p)) pages)
                         @ sim_rows last_page), w')
        \<and> script w' = rest \<and> quiet w w'
        \<and> repo_requests w' = repo_requests w + length pages + 1"
proof (induction pages arbitrary: st w)
  case Nil
  then have s: "script w = page_script last_page last_flag JNull @ rest"
    by (simp add: org_listing_def)
  from org_iter_page [OF Nil(1,3) s, of org_name st] Nil(4) obtain w' where
    "org_iter org_name st w =
       Some (Exit (st\<lparr>org_cursor := JNull, repo_details := repo_details st @ sim_rows last_page\<rparr>) w')"
    "script w' = rest" "quiet w w'" "repo_requests w' = repo_requests w + 1"
    by auto
  then show ?case
    by (simp add: org_loop.simps [of org_name st w])
next
  case (Cons p pages)
  obtain sims c where p: "p = (sims, c)" by (cases p)
  from Cons.prems(2) p have ne: "sims \<noteq> []" and o: "\<forall>s \<in> set sims. null_or_object (fst s)"
    by simp_all
  from Cons.prems(5) p have s:
    "script w = page_script sims True c @ (org_listing pages last_page last_flag @ rest)"
    by (simp add: org_listing_def)
  let ?st1 = "st\<lparr>org_cursor := c, repo_details := repo_details st @ sim_rows sims\<rparr>"
  from org_iter_page [OF Cons.prems(1) o s, of org_name st] ne obtain w1 where
    it: "org_iter org_name st w = Some (Again ?st1 w1)"
    and r1: "script w1 = org_listing pages last_page last_flag @ rest" "quiet w w1"
      "repo_requests w1 = repo_requests w + 1"
    by auto
  note v1 = quiet_valid [OF r1(2) Cons.prems(1)]
  from Cons.prems(2) have "\<forall>p \<in> set pages. fst p \<noteq> [] \<and> (\<forall>s \<in> set (fst p). null_or_object (fst s))"
    by simp
  from Cons.IH [OF v1 this Cons.prems(3,4) r1(1), of ?st1] obtain w' where
    l: "org_loop org_name ?st1 w1 =
          Some (Inr (repo_details ?st1 @ concat (map (\<lambda>p. sim_rows (fst p)) pages)
                       @ sim_rows last_page), w')"
    and r: "script w' = rest" "quiet w1 w'"
      "repo_requests w' = repo_requests w1 + length pages + 1"
    by blast
  have "org_loop org_name st w = org_loop org_name ?st1 w1"
    by (simp add: org_loop.simps [of org_name st w] it)
  moreover note quiet_trans [OF r1(2) r(2)]
  ultimately show ?case using l r r1 p
    by simp
qed

lemma requests_split: "length (requests w) = pr_requests w + repo_requests w"
proof -
  have "length xs = length (filter (\<lambda>r. query r = PullRequestsQuery) xs)
                  + length (filter (\<lambda>r. query r = RepositoriesQuery) xs)" for xs :: "request list"
  proof (induction xs)
    case Nil
    then show ?case by simp
  next
    case (Cons x xs)
    then show ?case by (cases "query x") simp_all
  qed
  from this [of "requests w"] show ?thesis
    unfolding pr_requests_def repo_requests_def .
qed

lemma fetch_org_repos_listing:
  assumes "valid w"
    and "\<forall>p \<in> set pages. fst p \<noteq> [] \<and> (\<forall>s \<in> set (fst p). null_or_object (fst s))"
    and "\<forall>s \<in> set last_page. null_or_object (fst s)"
    and "last_flag \<longrightarrow> last_page = []"
    and "script w = org_listing pages last_page last_flag @ rest"
  shows "\<exists>w'. fetch_org_repos org_name w =
            Some (Inr (concat (map (\<lambda>p. sim_rows (fst p)) pages) @ sim_rows last_page), w')
        \<and> script w' = rest \<and> quiet w w'
        \<and> repo_requests w' = repo_requests w + length pages + 1"
proof -
  let ?w0 = "emit [Print (FetchingOrg org_name)] w"
  have q: "quiet w ?w0" by (simp add: quiet_emit)
  have "valid ?w0" "script ?w0 = org_listing pages last_page last_flag @ rest"
    using assms(1,5) by simp_all
  from org_loop_listing [OF this(1) assms(2,3,4) this(2), of org_name
      "\<lparr>repo_details = [], org_cursor = JNull\<rparr>"]
  obtain w' where
    l: "org_loop org_name \<lparr>repo_details = [], org_cursor = JNull\<rparr> ?w0 =
          Some (Inr (concat (map (\<lambda>p. sim_rows (fst p)) pages) @ sim_rows last_page), w')"
    and r: "script w' = rest" "quiet ?w0 w'"
      "repo_requests w' = repo_requests ?w0 + length pages + 1"
    by auto
  from quiet_trans [OF q r(2)] l r show ?thesis
    by (simp add: fetch_org_repos_def)
qed

text \<open>
  Claim C3. On a simulated pull-request listing of K pages, the K-th being the first
  that reports no next page, \<open>fetch_pull_requests_count\<close> issues exactly K requests, all
  for pull-request pages, and returns with the rest of the script untouched. On a
  simulated repository listing of K pages, the first K - 1 non-empty and reporting a
  next page, \<open>fetch_org_repos\<close> issues exactly K requests for repository pages and
  returns with the rest of the script untouched. And on a page whose repository list is
  empty the repository loop returns the rows it had, whatever the page says about a
  next page, with one request and no rotation.
\<close>

theorem listings_take_one_request_per_page:
  assumes "valid w"
  shows "(script w = pr_listing pr_pages last_states @ rest \<longrightarrow>
            (\<exists>c w'. fetch_pull_requests_count repo_name org_name w = Some (Inr c, w')
               \<and> script w' = rest
               \<and> pr_requests w' = pr_requests w + (length pr_pages + 1)
               \<and> repo_requests w' = repo_requests w))
       \<and> ((\<forall>p \<in> set pages. fst p \<noteq> [] \<and> (\<forall>s \<in> set (fst p). null_or_object (fst s)))
            \<and> (\<forall>s \<in> set last_page. null_or_object (fst s))
            \<and> script w = org_listing pages last_page False @ rest \<longrightarrow>
            (\<exists>rows w'. fetch_org_repos org_name w = Some (Inr rows, w')
               \<and> script w' = rest
               \<and> repo_requests w' = repo_requests w + (length pages + 1)))
       \<and> (script w = Body (repo_page [] has_next c) # rest \<longrightarrow>
            (\<exists>w'. org_loop org_name st w = Some (Inr (repo_details st), w')
               \<and> script w' = rest
               \<and> repo_requests w' = repo_requests w + 1
               \<and> rotations w' = rotations w))"
proof (intro conjI impI)
  assume s: "script w = pr_listing pr_pages last_states @ rest"
  from pr_loop_listing [OF assms s, of org_name repo_name
      "\<lparr>open_count = 0, closed_count = 0, cursor = JNull\<rparr>"]
  obtain x w' where f: "fetch_pull_requests_count repo_name org_name w = Some (Inr x, w')"
    and r: "script w' = rest" "length (requests w') = length (requests w) + length pr_pages + 1"
      "filter (\<lambda>r. query r = RepositoriesQuery) (requests w')
         = filter (\<lambda>r. query r = RepositoriesQuery) (requests w)"
    by (auto simp: fetch_pull_requests_count_def)
  from r(3) have rr: "repo_requests w' = repo_requests w" by (simp add: repo_requests_def)
  with r(2) have "pr_requests w' = pr_requests w + (length pr_pages + 1)"
    by (simp add: requests_split)
  with f r(1) rr show "\<exists>c w'. fetch_pull_requests_count repo_name org_name w = Some (Inr c, w')
               \<and> script w' = rest
               \<and> pr_requests w' = pr_requests w + (length pr_pages + 1)
               \<and> repo_requests w' = repo_requests w"
    by blast
next
  assume a: "(\<forall>p \<in> set pages. fst p \<noteq> [] \<and> (\<forall>s \<in> set (fst p). null_or_object (fst s)))
            \<and> (\<forall>s \<in> set last_page. null_or_object (fst s))
            \<and> script w = org_listing pages last_page False @ rest"
  then have a1: "\<forall>p \<in> set pages. fst p \<noteq> [] \<and> (\<forall>s \<in> set (fst p). null_or_object (fst s))"
    and a2: "\<forall>s \<in> set last_page. null_or_object (fst s)"
    and a3: "script w = org_listing pages last_page False @ rest" by simp_all
  have a4: "False \<longrightarrow> last_page = []" by simp
  from fetch_org_repos_listing [OF assms a1 a2 a4 a3, of org_name]
  show "\<exists>rows w'. fetch_org_repos org_name w = Some (Inr rows, w')
               \<and> script w' = rest
               \<and> repo_requests w' = repo_requests w + (length pages + 1)"
    by auto
next
  assume s: "script w = Body (repo_page [] has_next c) # rest"
  then have s': "script w = page_script [] has_next c @ rest"
    by (simp add: page_script_def)
  have "\<forall>s \<in> set ([] :: sim_repo list). null_or_object (fst s)" by simp
  from org_iter_page [OF assms this s', of org_name st] obtain w' where
    "org_iter org_name st w = Some (Exit (st\<lparr>org_cursor := c\<rparr>) w')"
    "script w' = rest" "quiet w w'" "repo_requests w' = repo_requests w + 1"
    by auto
  then show "\<exists>w'. org_loop org_name st w = Some (Inr (repo_details st), w')
               \<and> script w' = rest
               \<and> repo_requests w' = repo_requests w + 1
               \<and> rotations w' = rotations w"
    by (simp add: org_loop.simps [of org_name st w] quiet_def)
qed

lemma repo_head_named:
  "repo_head (JObj [(''name'', JStr n)]) =
     Inr [(''Repository Name'', JStr n), (''Visibility'', JStr ''Public''),
          (''Size (KB)'', JStr ''N/A''), (''Default Branch'', JStr ''N/A''),
          (''Total Commits'', JInt 0), (''Last Pusher'', JStr ''N/A'')]"
  by (simp add: repo_head_def name_of_def is_private_of_def disk_usage_of_def
      default_branch_of_def total_commits_of_def history_of_def last_pusher_of_def ebind_def)

lemma repo_tail_named:
  "repo_tail (JObj [(''name'', JStr n)]) =
     Inr [(''Open Issues'', JInt 0), (''Closed Issues'', JInt 0), (''Languages'', JStr []),
          (''Total Releases'', JInt 0), (''Total Tags'', JInt 0),
          (''Last Pushed At'', JStr ''N/A''), (''Last Updated At'', JStr ''N/A''),
          (''Archived'', JStr ''No'')]"
  by (simp add: repo_tail_def total_count_of_def languages_of_def is_archived_of_def
      last_pushed_at_of_def last_updated_at_of_def py_join_def ebind_def)

theorem listings_take_one_request_per_page_witness:
  "valid (initial_world [''t0''] (pr_listing [([''OPEN''], JStr ''c1'')] [''CLOSED''] @ []))
   \<and> (\<exists>c w'. fetch_pull_requests_count (JStr ''a'') ''org''
          (initial_world [''t0''] (pr_listing [([''OPEN''], JStr ''c1'')] [''CLOSED''] @ []))
            = Some (Inr c, w')
        \<and> script w' = [] \<and> pr_requests w' = 2 \<and> repo_requests w' = 0)
   \<and> valid (initial_world [''t0'']
         (org_listing [([(JObj [(''name'', JStr ''a'')], [], [''OPEN''])], JStr ''c1'')]
            [(JNull, [], [])] False @ []))
   \<and> (\<exists>rows w'. fetch_org_repos ''org''
          (initial_world [''t0'']
             (org_listing [([(JObj [(''name'', JStr ''a'')], [], [''OPEN''])], JStr ''c1'')]
                [(JNull, [], [])] False @ []))
            = Some (Inr rows, w')
        \<and> script w' = [] \<and> repo_requests w' = 2)
   \<and> valid (initial_world [''t0''] [Body (repo_page [] True (JStr ''c1''))])
   \<and> (\<exists>w'. org_loop ''org'' \<lparr>repo_details = [], org_cursor = JNull\<rparr>
          (initial_world [''t0''] [Body (repo_page [] True (JStr ''c1''))])
            = Some (Inr [], w')
        \<and> script w' = [] \<and> repo_requests w' = 1 \<and> rotations w' = 0)"
proof -
  let ?wc = "initial_world [''t0''] (pr_listing [([''OPEN''], JStr ''c1'')] [''CLOSED''] @ [])"
  let ?pages = "[([(JObj [(''name'', JStr ''a'')], [], [''OPEN''])], JStr ''c1'')]
                  :: (sim_repo list \<times> json) list"
  let ?last = "[(JNull, [], [])] :: sim_repo list"
  let ?wo = "initial_world [''t0''] (org_listing ?pages ?last False @ [])"
  let ?we = "initial_world [''t0''] [Body (repo_page [] True (JStr ''c1''))]"
  let ?st = "\<lparr>repo_details = [], org_cursor = JNull\<rparr>"
  have vc: "valid ?wc" and vo: "valid ?wo" and ve: "valid ?we"
    by (simp_all add: valid_def initial_world_def)
  have zc: "pr_requests ?wc = 0" "repo_requests ?wc = 0"
    by (simp_all add: pr_requests_def repo_requests_def initial_world_def)
  have zo: "repo_requests ?wo = 0" by (simp add: repo_requests_def initial_world_def)
  have ze: "repo_requests ?we = 0" "rotations ?we = 0"
    by (simp_all add: repo_requests_def rotations_def initial_world_def)
  have sc: "script ?wc = pr_listing [([''OPEN''], JStr ''c1'')] [''CLOSED''] @ []"
    by (simp add: initial_world_def)
  have so: "(\<forall>p \<in> set ?pages. fst p \<noteq> [] \<and> (\<forall>s \<in> set (fst p). null_or_object (fst s)))
            \<and> (\<forall>s \<in> set ?last. null_or_object (fst s))
            \<and> script ?wo = org_listing ?pages ?last False @ []"
    by (simp add: initial_world_def)
  have se: "script ?we = Body (repo_page [] True (JStr ''c1'')) # []"
    by (simp add: initial_world_def)
  note tc = listings_take_one_request_per_page [OF vc,
      where pr_pages = "[([''OPEN''], JStr ''c1'')]" and last_states = "[''CLOSED'']"
        and rest = "[]" and repo_name = "JStr ''a''" and org_name = "''org''"]
  from mp [OF conjunct1 [OF tc] sc] zc
  have a: "\<exists>c w'. fetch_pull_requests_count (JStr ''a'') ''org'' ?wc = Some (Inr c, w')
        \<and> script w' = [] \<and> pr_requests w' = 2 \<and> repo_requests w' = 0"
    by (simp add: numeral_2_eq_2)
  note to = listings_take_one_request_per_page [OF vo,
      where pages = ?pages and last_page = ?last and rest = "[]" and org_name = "''org''"]
  from mp [OF conjunct1 [OF conjunct2 [OF to]] so] zo
  have b: "\<exists>rows w'. fetch_org_repos ''org'' ?wo = Some (Inr rows, w')
        \<and> script w' = [] \<and> repo_requests w' = 2"
    by (simp add: numeral_2_eq_2)
  note te = listings_take_one_request_per_page [OF ve,
      where has_next = True and c = "JStr ''c1''" and rest = "[]" and org_name = "''org''"
        and st = ?st]
  from mp [OF conjunct2 [OF conjunct2 [OF te]] se] ze
  have c: "\<exists>w'. org_loop ''org'' ?st ?we = Some (Inr [], w')
        \<and> script w' = [] \<and> repo_requests w' = 1 \<and> rotations w' = 0"
    by simp
  from vc vo ve a b c show ?thesis by blast
qed


section \<open>Records that are skipped\<close>






section \<open>The report file\<close>

lemma cells_in_key_order:
  "distinct (map fst rowdict) \<Longrightarrow>
     map (\<lambda>k. case map_of rowdict k of None \<Rightarrow> d | Some v \<Rightarrow> v) (map fst rowdict)
       = map snd rowdict"
proof (induction rowdict)
  case Nil
  then show ?case by simp
next
  case (Cons kv rowdict)
  obtain k v where kv: "kv = (k, v)" by (cases kv)
  from Cons.prems kv have d: "distinct (map fst rowdict)" and n: "k \<notin> fst ` set rowdict"
    by simp_all
  have "map (\<lambda>k'. case map_of ((k, v) # rowdict) k' of None \<Rightarrow> d | Some v \<Rightarrow> v) (map fst rowdict)
      = map (\<lambda>k'. case map_of rowdict k' of None \<Rightarrow> d | Some v \<Rightarrow> v) (map fst rowdict)"
    using n by (intro map_cong) auto
  with Cons.IH [OF d] kv show ?case by simp
qed

lemma distinct_fieldnames: "distinct fieldnames"
  by (simp add: fieldnames_def)

lemma dict_to_list_row:
  "map fst rowdict = fieldnames \<Longrightarrow> dict_to_list fieldnames rowdict = Inr (map snd rowdict)"
  using cells_in_key_order [of rowdict "JStr []"] distinct_fieldnames
  by (auto simp: dict_to_list_def)

lemma writerows_rows:
  "\<forall>row \<in> set rows. map fst row = fieldnames \<Longrightarrow>
     writerows fieldnames rows lines = (None, lines @ map (map snd) rows)"
  by (induction rows arbitrary: lines) (simp_all add: dict_to_list_row)

lemma fetch_org_repos_keys:
  assumes "valid w" and "fetch_org_repos org_name w = Some (Inr rows, w')"
  shows "(\<forall>row \<in> set rows. map fst row = fieldnames) \<and> files w' = files w"
proof -
  have "\<forall>repo w1 info w2. advances w w1
      \<and> build_repo_info org_name repo w1 = Some (Inr info, w2) \<longrightarrow> map fst info = fieldnames"
    by (blast dest: build_repo_info_Inr)
  from fetch_org_repos_rows [where P = "\<lambda>row. map fst row = fieldnames", OF this assms]
  show ?thesis by (auto simp: advances_def)
qed

text \<open>
  Claim C9. For every organization, when the rows that \<open>fetch_org_repos\<close> returns are
  not empty, \<open>main_org\<close> writes the file named after the organization: its first line
  is the header of the sixteen column names in the order of the specification, and the
  lines after it are the rows in the order in which they were appended, each with its
  cells in column order. When there are no rows no file is written, and the notice that
  no data was fetched is printed.
\<close>

theorem report_has_header_and_rows_in_order:
  assumes "valid w"
    and "fetch_org_repos org (emit [Print (ProcessingOrg org)] w) = Some (Inr rows, w1)"
  shows "fieldnames =
           [''Repository Name'', ''Visibility'', ''Size (KB)'', ''Default Branch'',
            ''Total Commits'', ''Last Pusher'', ''Open Pull Requests'', ''Closed Pull Requests'',
            ''Open Issues'', ''Closed Issues'', ''Languages'', ''Total Releases'', ''Total Tags'',
            ''Last Pushed At'', ''Last Updated At'', ''Archived'']
       \<and> (\<forall>row \<in> set rows. map fst row = fieldnames)
       \<and> (rows \<noteq> [] \<longrightarrow>
            main_org org w =
              Some (None, emit [Print (DataWritten org (org @ ''_repo_details.csv''))]
                (w1\<lparr>files := (files w)(org @ ''_repo_details.csv'' \<mapsto>
                                 map JStr fieldnames # map (map snd) rows)\<rparr>)))
       \<and> (rows = [] \<longrightarrow>
            (\<exists>w2. main_org org w = Some (None, w2) \<and> files w2 = files w
               \<and> events w2 = events w1 @ [Print (NoDataFetched org)]))"
proof -
  have v: "valid (emit [Print (ProcessingOrg org)] w)" using assms(1) by simp
  from fetch_org_repos_keys [OF v assms(2)] have
    k: "\<forall>row \<in> set rows. map fst row = fieldnames" and f: "files w1 = files w" by simp_all
  from k have wr: "writerows fieldnames rows [map JStr fieldnames]
      = (None, map JStr fieldnames # map (map snd) rows)"
    by (simp add: writerows_rows)
  have a: "rows \<noteq> [] \<longrightarrow>
            main_org org w =
              Some (None, emit [Print (DataWritten org (org @ ''_repo_details.csv''))]
                (w1\<lparr>files := (files w)(org @ ''_repo_details.csv'' \<mapsto>
                                 map JStr fieldnames # map (map snd) rows)\<rparr>))"
    using assms(2) wr f by (simp add: main_org_def Let_def)
  have b: "rows = [] \<longrightarrow>
            (\<exists>w2. main_org org w = Some (None, w2) \<and> files w2 = files w
               \<and> events w2 = events w1 @ [Print (NoDataFetched org)])"
    using assms(2) f by (simp add: main_org_def)
  from k a b show ?thesis by (simp add: fieldnames_def)
qed

theorem report_has_header_and_rows_in_order_witness:
  "valid (initial_world [''t0'']
      [Body (repo_page [JObj [(''name'', JStr ''a'')]] False JNull),
       Body (pr_page [''OPEN'', ''MERGED'', ''OPEN''] False JNull)])
   \<and> (\<exists>w2. main_org ''org''
         (initial_world [''t0'']
            [Body (repo_page [JObj [(''name'', JStr ''a'')]] False JNull),
             Body (pr_page [''OPEN'', ''MERGED'', ''OPEN''] False JNull)])
         = Some (None, w2)
       \<and> files w2 ''org_repo_details.csv'' =
           Some [map JStr fieldnames,
                 [JStr ''a'', JStr ''Public'', JStr ''N/A'', JStr ''N/A'', JInt 0, JStr ''N/A'',
                  JInt 2, JInt 1, JInt 0, JInt 0, JStr [], JInt 0, JInt 0, JStr ''N/A'',
                  JStr ''N/A'', JStr ''No'']])
   \<and> valid (initial_world [''t0''] [Body (repo_page [] False JNull)])
   \<and> (\<exists>w2. main_org ''org'' (initial_world [''t0''] [Body (repo_page [] False JNull)])
         = Some (None, w2)
       \<and> files w2 = Map.empty)"
proof -
  let ?sim = "(JObj [(''name'', JStr ''a'')], [], [''OPEN'', ''MERGED'', ''OPEN'']) :: sim_repo"
  let ?w = "initial_world [''t0'']
      [Body (repo_page [JObj [(''name'', JStr ''a'')]] False JNull),
       Body (pr_page [''OPEN'', ''MERGED'', ''OPEN''] False JNull)]"
  let ?e = "initial_world [''t0''] [Body (repo_page [] False JNull)]"
  let ?row = "[(''Repository Name'', JStr ''a''), (''Visibility'', JStr ''Public''),
          (''Size (KB)'', JStr ''N/A''), (''Default Branch'', JStr ''N/A''),
          (''Total Commits'', JInt 0), (''Last Pusher'', JStr ''N/A''),
          (''Open Pull Requests'', JInt 2), (''Closed Pull Requests'', JInt 1),
          (''Open Issues'', JInt 0), (''Closed Issues'', JInt 0), (''Languages'', JStr []),
          (''Total Releases'', JInt 0), (''Total Tags'', JInt 0),
          (''Last Pushed At'', JStr ''N/A''), (''Last Updated At'', JStr ''N/A''),
          (''Archived'', JStr ''No'')]"
  let ?p = "\<lambda>w. emit [Print (ProcessingOrg ''org'')] w"
  have v: "valid ?w" and ve: "valid ?e" by (simp_all add: valid_def initial_world_def)
  have no: "\<forall>p \<in> set ([] :: (sim_repo list \<times> json) list).
          fst p \<noteq> [] \<and> (\<forall>s \<in> set (fst p). null_or_object (fst s))" by simp
  have s: "script (?p ?w) = org_listing [] [?sim] False @ []"
    by (simp add: initial_world_def org_listing_def page_script_def repo_head_named
        pr_listing_def)
  have r: "sim_rows [?sim] = [?row]"
    by (simp add: sim_rows_Cons repo_head_named repo_tail_named listed_states_def
        spec_open_def spec_closed_or_merged_def)
  have "valid (?p ?w)" "\<forall>s \<in> set [?sim]. null_or_object (fst s)" "False \<longrightarrow> [?sim] = []"
    using v by simp_all
  from fetch_org_repos_listing [OF this(1) no this(2,3) s, of "''org''"] r obtain w1 where
    f: "fetch_org_repos ''org'' (?p ?w) = Some (Inr [?row], w1)" by auto
  from report_has_header_and_rows_in_order [OF v f]
  have a: "\<exists>w2. main_org ''org'' ?w = Some (None, w2)
       \<and> files w2 ''org_repo_details.csv'' =
           Some [map JStr fieldnames,
                 [JStr ''a'', JStr ''Public'', JStr ''N/A'', JStr ''N/A'', JInt 0, JStr ''N/A'',
                  JInt 2, JInt 1, JInt 0, JInt 0, JStr [], JInt 0, JInt 0, JStr ''N/A'',
                  JStr ''N/A'', JStr ''No'']]"
    by simp
  have se: "script (?p ?e) = org_listing [] [] False @ []"
    by (simp add: initial_world_def org_listing_def page_script_def)
  have "valid (?p ?e)" "\<forall>s \<in> set ([] :: sim_repo list). null_or_object (fst s)"
    "False \<longrightarrow> ([] :: sim_repo list) = []"
    using ve by simp_all
  from fetch_org_repos_listing [OF this(1) no this(2,3) se, of "''org''"] obtain w1' where
    fe: "fetch_org_repos ''org'' (?p ?e) = Some (Inr [], w1')" by auto
  from report_has_header_and_rows_in_order [OF ve fe]
  have b: "\<exists>w2. main_org ''org'' ?e = Some (None, w2) \<and> files w2 = Map.empty"
    by (auto simp: initial_world_def)
  from v ve a b show ?thesis by blast
qed

section \<open>Placeholders for missing fields\<close>

lemma missing_Key:
  "missing (Key k # p) v \<Longrightarrow>
     \<exists>kvs. v = JObj kvs \<and> (map_of kvs k = None \<or> (\<exists>x. map_of kvs k = Some x \<and> missing p x))"
  by (cases v) (auto split: option.splits)

lemma missing_Index0:
  "missing (Index0 # p) v \<Longrightarrow> \<exists>x xs. v = JList (x # xs) \<and> missing p x"
proof (cases v)
  case (JList ys)
  assume "missing (Index0 # p) v"
  with JList show ?thesis by (cases ys) auto
qed auto

lemma missing_Nil [simp]: "\<not> missing [] v"
  by simp

lemma name_of_missing: "missing [Key ''name''] repo \<Longrightarrow> name_of repo = Inr (JStr ''N/A'')"
  by (auto simp: name_of_def dest!: missing_Key)

lemma is_private_of_missing:
  "missing [Key ''isPrivate''] repo \<Longrightarrow> is_private_of repo = Inr (JStr ''Public'')"
  by (auto simp: is_private_of_def ebind_def dest!: missing_Key)

lemma disk_usage_of_missing:
  "missing [Key ''diskUsage''] repo \<Longrightarrow> disk_usage_of repo = Inr (JStr ''N/A'')"
  by (auto simp: disk_usage_of_def dest!: missing_Key)

lemma default_branch_of_missing:
  "missing [Key ''defaultBranchRef'', Key ''name''] repo \<Longrightarrow>
     default_branch_of repo = Inr (JStr ''N/A'')"
  by (auto simp: default_branch_of_def ebind_def dest!: missing_Key)

lemma py_get_missing:
  "missing (Key k # p) v \<Longrightarrow>
     py_get v k (JObj []) = Inr (JObj []) \<or> (\<exists>x. py_get v k (JObj []) = Inr x \<and> missing p x)"
  by (auto dest!: missing_Key)

lemma py_get_missing_last: "missing [Key k] v \<Longrightarrow> py_get v k d = Inr d"
  by (auto dest!: missing_Key)

lemma py_get_empty [simp]: "py_get (JObj []) k d = Inr d"
  by simp

lemma history_of_missing:
  assumes "missing (Key ''defaultBranchRef'' # Key ''target'' # Key ''history'' # p) repo"
  shows "history_of repo = Inr (JObj []) \<or> (\<exists>h. history_of repo = Inr h \<and> missing p h)"
  using py_get_missing [OF assms]
proof (elim disjE exE conjE)
  assume "py_get repo ''defaultBranchRef'' (JObj []) = Inr (JObj [])"
  then show ?thesis by (simp add: history_of_def ebind_def)
next
  fix b
  assume b: "py_get repo ''defaultBranchRef'' (JObj []) = Inr b"
    and mb: "missing (Key ''target'' # Key ''history'' # p) b"
  from py_get_missing [OF mb] show ?thesis
  proof (elim disjE exE conjE)
    assume "py_get b ''target'' (JObj []) = Inr (JObj [])"
    with b show ?thesis by (simp add: history_of_def ebind_def)
  next
    fix t
    assume t: "py_get b ''target'' (JObj []) = Inr t" and mt: "missing (Key ''history'' # p) t"
    from py_get_missing [OF mt] b t show ?thesis
      by (auto simp: history_of_def ebind_def)
  qed
qed

lemma total_commits_of_missing:
  assumes "missing [Key ''defaultBranchRef'', Key ''target'', Key ''history'', Key ''totalCount'']
             repo"
  shows "total_commits_of repo = Inr (JInt 0)"
  using history_of_missing [OF assms]
  by (auto simp: total_commits_of_def ebind_def py_get_missing_last)

lemma author_login_missing:
  assumes "missing [Key ''author'', Key ''user'', Key ''login''] n"
  shows "ebind (ebind (py_get n ''author'' (JObj []))
            (\<lambda>a. py_get a ''user'' (JObj [])))
            (\<lambda>u. py_get u ''login'' (JStr ''N/A'')) = Inr (JStr ''N/A'')"
  using py_get_missing [OF assms]
proof (elim disjE exE conjE)
  assume "py_get n ''author'' (JObj []) = Inr (JObj [])"
  then show ?thesis by (simp add: ebind_def)
next
  fix a
  assume a: "py_get n ''author'' (JObj []) = Inr a" and ma: "missing [Key ''user'', Key ''login''] a"
  from py_get_missing [OF ma] show ?thesis
  proof (elim disjE exE conjE)
    assume "py_get a ''user'' (JObj []) = Inr (JObj [])"
    with a show ?thesis by (simp add: ebind_def)
  next
    fix u
    assume "py_get a ''user'' (JObj []) = Inr u" and "missing [Key ''login''] u"
    with a show ?thesis by (simp add: ebind_def py_get_missing_last)
  qed
qed

lemma last_pusher_of_missing:
  assumes "missing [Key ''defaultBranchRef'', Key ''target'', Key ''history'', Key ''nodes'',
                    Index0, Key ''author'', Key ''user'', Key ''login''] repo"
  shows "last_pusher_of repo = Inr (JStr ''N/A'')"
  using history_of_missing [OF assms]
proof
  assume "history_of repo = Inr (JObj [])"
  then show ?thesis by (simp add: last_pusher_of_def ebind_def)
next
  assume "\<exists>h. history_of repo = Inr h
     \<and> missing [Key ''nodes'', Index0, Key ''author'', Key ''user'', Key ''login''] h"
  then obtain h where h: "history_of repo = Inr h"
    and m: "missing [Key ''nodes'', Index0, Key ''author'', Key ''user'', Key ''login''] h"
    by blast
  from missing_Key [OF m] obtain kvs where kvs: "h = JObj kvs"
    and c: "map_of kvs ''nodes'' = None
       \<or> (\<exists>x. map_of kvs ''nodes'' = Some x
              \<and> missing [Index0, Key ''author'', Key ''user'', Key ''login''] x)"
    by blast
  from c show ?thesis
  proof
    assume "map_of kvs ''nodes'' = None"
    with h kvs show ?thesis by (simp add: last_pusher_of_def ebind_def)
  next
    assume "\<exists>x. map_of kvs ''nodes'' = Some x
              \<and> missing [Index0, Key ''author'', Key ''user'', Key ''login''] x"
    then obtain x where x: "map_of kvs ''nodes'' = Some x"
      and mx: "missing [Index0, Key ''author'', Key ''user'', Key ''login''] x" by blast
    from missing_Index0 [OF mx] obtain n ns where n: "x = JList (n # ns)"
      and mn: "missing [Key ''author'', Key ''user'', Key ''login''] n" by blast
    from author_login_missing [OF mn] h kvs x n show ?thesis
      by (simp add: last_pusher_of_def ebind_def)
  qed
qed

lemma total_count_of_missing:
  "missing [Key k, Key ''totalCount''] repo \<Longrightarrow> total_count_of k repo = Inr (JInt 0)"
  by (auto simp: total_count_of_def ebind_def dest!: missing_Key)

lemma languages_of_missing:
  "missing [Key ''languages'', Key ''nodes''] repo \<Longrightarrow> languages_of repo = Inr (JStr [])"
  by (auto simp: languages_of_def py_join_def ebind_def dest!: missing_Key)

lemma is_archived_of_missing:
  "missing [Key ''isArchived''] repo \<Longrightarrow> is_archived_of repo = Inr (JStr ''No'')"
  by (auto simp: is_archived_of_def ebind_def dest!: missing_Key)

lemma missing_prefix: "missing [Key k] v \<Longrightarrow> missing (Key k # p) v"
  by (cases v) (auto split: option.splits)

text \<open>
  Claim C6, as amended. For every raw repository record, a field whose key is missing
  at some object level of its path gets the placeholder the code gives it: "N/A" for
  the name, the size, the default branch, the last pusher (path defaultBranchRef,
  target, history, nodes[0], author, user, login) and the two timestamps; 0 for the
  total commits and for the counts of issues, releases and tags; "Public" for the
  visibility and "No" for the archived flag; the empty string for the languages. A
  record without defaultBranchRef yields default branch "N/A", total commits 0 and last
  pusher "N/A", each without raising.
\<close>

theorem missing_fields_get_placeholders:
  "(missing [Key ''name''] repo \<longrightarrow> name_of repo = Inr (JStr ''N/A''))
   \<and> (missing [Key ''isPrivate''] repo \<longrightarrow> is_private_of repo = Inr (JStr ''Public''))
   \<and> (missing [Key ''diskUsage''] repo \<longrightarrow> disk_usage_of repo = Inr (JStr ''N/A''))
   \<and> (missing [Key ''defaultBranchRef'', Key ''name''] repo \<longrightarrow>
        default_branch_of repo = Inr (JStr ''N/A''))
   \<and> (missing [Key ''defaultBranchRef'', Key ''target'', Key ''history'', Key ''totalCount'']
        repo \<longrightarrow> total_commits_of repo = Inr (JInt 0))
   \<and> (missing [Key ''defaultBranchRef'', Key ''target'', Key ''history'', Key ''nodes'',
                Index0, Key ''author'', Key ''user'', Key ''login''] repo \<longrightarrow>
        last_pusher_of repo = Inr (JStr ''N/A''))
   \<and> (missing [Key ''openIssues'', Key ''totalCount''] repo \<longrightarrow>
        total_count_of ''openIssues'' repo = Inr (JInt 0))
   \<and> (missing [Key ''closedIssues'', Key ''totalCount''] repo \<longrightarrow>
        total_count_of ''closedIssues'' repo = Inr (JInt 0))
   \<and> (missing [Key ''languages'', Key ''nodes''] repo \<longrightarrow> languages_of repo = Inr (JStr []))
   \<and> (missing [Key ''releases'', Key ''totalCount''] repo \<longrightarrow>
        total_count_of ''releases'' repo = Inr (JInt 0))
   \<and> (missing [Key ''refs'', Key ''totalCount''] repo \<longrightarrow>
        total_count_of ''refs'' repo = Inr (JInt 0))
   \<and> (missing [Key ''pushedAt''] repo \<longrightarrow> last_pushed_at_of repo = Inr (JStr ''N/A''))
   \<and> (missing [Key ''updatedAt''] repo \<longrightarrow> last_updated_at_of repo = Inr (JStr ''N/A''))
   \<and> (missing [Key ''isArchived''] repo \<longrightarrow> is_archived_of repo = Inr (JStr ''No''))
   \<and> (missing [Key ''defaultBranchRef''] repo \<longrightarrow>
        default_branch_of repo = Inr (JStr ''N/A'')
        \<and> total_commits_of repo = Inr (JInt 0)
        \<and> last_pusher_of repo = Inr (JStr ''N/A''))"
proof -
  have p: "missing [Key ''pushedAt''] repo \<longrightarrow> last_pushed_at_of repo = Inr (JStr ''N/A'')"
    by (auto simp: last_pushed_at_of_def dest!: missing_Key)
  have u: "missing [Key ''updatedAt''] repo \<longrightarrow> last_updated_at_of repo = Inr (JStr ''N/A'')"
    by (auto simp: last_updated_at_of_def dest!: missing_Key)
  have d: "missing [Key ''defaultBranchRef''] repo \<longrightarrow>
        default_branch_of repo = Inr (JStr ''N/A'')
        \<and> total_commits_of repo = Inr (JInt 0)
        \<and> last_pusher_of repo = Inr (JStr ''N/A'')"
    by (blast intro: default_branch_of_missing total_commits_of_missing last_pusher_of_missing
        missing_prefix)
  from p u d show ?thesis
    by (simp add: name_of_missing is_private_of_missing disk_usage_of_missing
        default_branch_of_missing total_commits_of_missing last_pusher_of_missing
        total_count_of_missing languages_of_missing is_archived_of_missing)
qed

theorem missing_fields_get_placeholders_witness:
  "missing [Key ''defaultBranchRef''] (JObj [(''name'', JStr ''a'')])
   \<and> default_branch_of (JObj [(''name'', JStr ''a'')]) = Inr (JStr ''N/A'')
   \<and> total_commits_of (JObj [(''name'', JStr ''a'')]) = Inr (JInt 0)
   \<and> last_pusher_of (JObj [(''name'', JStr ''a'')]) = Inr (JStr ''N/A'')
   \<and> missing [Key ''defaultBranchRef'', Key ''target'', Key ''history'', Key ''nodes'',
               Index0, Key ''author'', Key ''user'', Key ''login'']
        (JObj [(''defaultBranchRef'', JObj [(''target'', JObj [(''history'', JObj
           [(''nodes'', JList [JObj [(''author'', JObj [(''name'', JStr ''x'')])]])])])])])
   \<and> last_pusher_of
        (JObj [(''defaultBranchRef'', JObj [(''target'', JObj [(''history'', JObj
           [(''nodes'', JList [JObj [(''author'', JObj [(''name'', JStr ''x'')])]])])])])])
       = Inr (JStr ''N/A'')"
proof -
  let ?a = "JObj [(''name'', JStr ''a'')]"
  let ?b = "JObj [(''defaultBranchRef'', JObj [(''target'', JObj [(''history'', JObj
           [(''nodes'', JList [JObj [(''author'', JObj [(''name'', JStr ''x'')])]])])])])]"
  have ma: "missing [Key ''defaultBranchRef''] ?a" by simp
  have mb: "missing [Key ''defaultBranchRef'', Key ''target'', Key ''history'', Key ''nodes'',
               Index0, Key ''author'', Key ''user'', Key ''login''] ?b" by simp
  from missing_fields_get_placeholders [of ?a] ma
  have "default_branch_of ?a = Inr (JStr ''N/A'') \<and> total_commits_of ?a = Inr (JInt 0)
        \<and> last_pusher_of ?a = Inr (JStr ''N/A'')" by blast
  moreover from missing_fields_get_placeholders [of ?b] mb
  have "last_pusher_of ?b = Inr (JStr ''N/A'')" by blast
  ultimately show ?thesis using ma mb by blast
qed

text \<open>
  Claim C6 as stated fails on the size and on the languages. For the record with no
  key at all, and one page of no pull requests, the row has "N/A" under Size (KB), not
  0, and the empty string under Languages, not "N/A".
\<close>

theorem missing_size_is_zero_counterexample:
  "missing [Key ''diskUsage''] (JObj [])
   \<and> disk_usage_of (JObj []) = Inr (JStr ''N/A'')
   \<and> disk_usage_of (JObj []) \<noteq> Inr (JInt 0)
   \<and> missing [Key ''languages''] (JObj [])
   \<and> languages_of (JObj []) = Inr (JStr [])
   \<and> languages_of (JObj []) \<noteq> Inr (JStr ''N/A'')
   \<and> outcome (build_repo_info ''org'' (JObj [])
        (initial_world [''t0''] [Body (pr_page [] False JNull)]))
       = Some (Inr [(''Repository Name'', JStr ''N/A''), (''Visibility'', JStr ''Public''),
                    (''Size (KB)'', JStr ''N/A''), (''Default Branch'', JStr ''N/A''),
                    (''Total Commits'', JInt 0), (''Last Pusher'', JStr ''N/A''),
                    (''Open Pull Requests'', JInt 0), (''Closed Pull Requests'', JInt 0),
                    (''Open Issues'', JInt 0), (''Closed Issues'', JInt 0),
                    (''Languages'', JStr []), (''Total Releases'', JInt 0),
                    (''Total Tags'', JInt 0), (''Last Pushed At'', JStr ''N/A''),
                    (''Last Updated At'', JStr ''N/A''), (''Archived'', JStr ''No'')], [])"
proof -
  let ?w = "initial_world [''t0''] [Body (pr_page [] False JNull)]"
  have v: "valid ?w" by (simp add: valid_def initial_world_def)
  have s: "script ?w = pr_listing [] [] @ []" by (simp add: initial_world_def pr_listing_def)
  from pr_loop_listing [OF v s, of "''org''" "JStr ''N/A''"
      "\<lparr>open_count = 0, closed_count = 0, cursor = JNull\<rparr>"]
  obtain w' where f: "fetch_pull_requests_count (JStr ''N/A'') ''org'' ?w = Some (Inr (0, 0), w')"
    and r: "script w' = []"
    by (auto simp: fetch_pull_requests_count_def listed_states_def spec_open_def
        spec_closed_or_merged_def)
  have h: "repo_head (JObj []) =
     Inr [(''Repository Name'', JStr ''N/A''), (''Visibility'', JStr ''Public''),
          (''Size (KB)'', JStr ''N/A''), (''Default Branch'', JStr ''N/A''),
          (''Total Commits'', JInt 0), (''Last Pusher'', JStr ''N/A'')]"
    by (simp add: repo_head_def name_of_def is_private_of_def disk_usage_of_def
        default_branch_of_def total_commits_of_def history_of_def last_pusher_of_def ebind_def)
  have t: "repo_tail (JObj []) =
     Inr [(''Open Issues'', JInt 0), (''Closed Issues'', JInt 0), (''Languages'', JStr []),
          (''Total Releases'', JInt 0), (''Total Tags'', JInt 0),
          (''Last Pushed At'', JStr ''N/A''), (''Last Updated At'', JStr ''N/A''),
          (''Archived'', JStr ''No'')]"
    by (simp add: repo_tail_def total_count_of_def languages_of_def is_archived_of_def
        last_pushed_at_of_def last_updated_at_of_def py_join_def ebind_def)
  have n: "name_of (JObj []) = Inr (JStr ''N/A'')" by (simp add: name_of_def)
  have "outcome (build_repo_info ''org'' (JObj []) ?w)
       = Some (Inr [(''Repository Name'', JStr ''N/A''), (''Visibility'', JStr ''Public''),
                    (''Size (KB)'', JStr ''N/A''), (''Default Branch'', JStr ''N/A''),
                    (''Total Commits'', JInt 0), (''Last Pusher'', JStr ''N/A''),
                    (''Open Pull Requests'', JInt 0), (''Closed Pull Requests'', JInt 0),
                    (''Open Issues'', JInt 0), (''Closed Issues'', JInt 0),
                    (''Languages'', JStr []), (''Total Releases'', JInt 0),
                    (''Total Tags'', JInt 0), (''Last Pushed At'', JStr ''N/A''),
                    (''Last Updated At'', JStr ''N/A''), (''Archived'', JStr ''No'')], [])"
    using f r by (simp add: build_repo_info_def h t n outcome_def)
  moreover have "disk_usage_of (JObj []) = Inr (JStr ''N/A'')" by (simp add: disk_usage_of_def)
  moreover have "languages_of (JObj []) = Inr (JStr [])"
    by (simp add: languages_of_def py_join_def ebind_def)
  ultimately show ?thesis by simp
qed

section \<open>The result of the repository loop depends on the script only\<close>

lemma outcome_eq_cases:
  assumes "outcome a = outcome b"
  obtains (none) "a = None" and "b = None"
  | (some) r w v where "a = Some (r, w)" and "b = Some (r, v)" and "script w = script v"
proof (cases a)
  case None
  with assms have "b = None" by (simp add: outcome_def)
  with None show ?thesis by (rule none)
next
  case (Some x)
  obtain r w where x: "x = (r, w)" by (cases x)
  from assms Some x obtain v where "b = Some (r, v)" "script w = script v"
    by (cases b) (auto simp: outcome_def)
  with Some x show ?thesis by (auto intro: some)
qed

lemma outcome2_eq_cases:
  assumes "outcome2 a = outcome2 b"
  obtains (none) "a = None" and "b = None"
  | (some) r s w v where "a = Some (r, s, w)" and "b = Some (r, s, v)" and "script w = script v"
proof (cases a)
  case None
  with assms have "b = None" by (simp add: outcome2_def)
  with None show ?thesis by (rule none)
next
  case (Some x)
  obtain r s w where x: "x = (r, s, w)" by (cases x)
  from assms Some x obtain v where "b = Some (r, s, v)" "script w = script v"
    by (cases b) (auto simp: outcome2_def)
  with Some x show ?thesis by (auto intro: some)
qed

lemma build_repo_info_script_only:
  assumes "valid w" and "valid v" and "script w = script v"
  shows "outcome (build_repo_info org_name repo w) = outcome (build_repo_info org_name repo v)"
proof (cases "repo_head repo")
  case (Inl e)
  with assms(3) show ?thesis by (simp add: build_repo_info_def outcome_def)
next
  case (Inr hd_items)
  from repo_head_Inr [OF Inr] obtain name where n: "name_of repo = Inr name" by blast
  from pr_loop_script_only [OF assms, of org_name name
      "\<lparr>open_count = 0, closed_count = 0, cursor = JNull\<rparr>"]
  have "outcome (fetch_pull_requests_count name org_name w)
      = outcome (fetch_pull_requests_count name org_name v)"
    by (simp add: fetch_pull_requests_count_def)
  then show ?thesis
  proof (cases rule: outcome_eq_cases)
    case none
    with Inr n show ?thesis by (simp add: build_repo_info_def)
  next
    case (some r w1 v1)
    with Inr n show ?thesis
      by (simp add: build_repo_info_def outcome_def split: sum.splits prod.splits)
  qed
qed

lemma process_repos_script_only:
  "valid w \<Longrightarrow> valid v \<Longrightarrow> script w = script v \<Longrightarrow>
     outcome2 (process_repos org_name repos rows w)
       = outcome2 (process_repos org_name repos rows v)"
proof (induction repos arbitrary: rows w v)
  case Nil
  then show ?case by (simp add: outcome2_def)
next
  case (Cons repo rest)
  show ?case
  proof (cases "repo = JNull")
    case True
    with Cons.IH [of "emit [LogError (EntryIsNone org_name), Print (EntryIsNone org_name)] w"
        "emit [LogError (EntryIsNone org_name), Print (EntryIsNone org_name)] v" rows]
      Cons.prems
    show ?thesis by simp
  next
    case False
    from build_repo_info_script_only [OF Cons.prems, of org_name repo]
    show ?thesis
    proof (cases rule: outcome_eq_cases)
      case none
      with False show ?thesis by simp
    next
      case (some b w1 v1)
      note v1 = build_repo_info_valid [OF Cons.prems(1) some(1)]
        build_repo_info_valid [OF Cons.prems(2) some(2)]
      show ?thesis
      proof (cases b)
        case (Inr info)
        with False some Cons.IH [OF v1 some(3), of "rows @ [info]"] show ?thesis by simp
      next
        case (Inl e)
        show ?thesis
        proof (cases "py_get repo ''name'' (JStr ''N/A'')")
          case e': (Inl e')
          with False some Inl show ?thesis by (simp add: outcome2_def)
        next
          case (Inr n)
          let ?ev = "[LogError (ErrorProcessingRepo n org_name e),
                      Print (ErrorProcessingRepo n org_name e)]"
          from v1 some(3) have "valid (emit ?ev w1)" "valid (emit ?ev v1)"
            "script (emit ?ev w1) = script (emit ?ev v1)" by simp_all
          from Cons.IH [OF this, of rows] False some Inl Inr show ?thesis by simp
        qed
      qed
    qed
  qed
qed

lemma org_handle_data_script_only:
  assumes v: "valid w" "valid v" and s: "script w = script v"
  shows "outcome2 (org_handle_data org_name data st w)
       = outcome2 (org_handle_data org_name data st v)"
proof (cases "py_in ''errors'' data = Inr False")
  case False
  with v s show ?thesis
    by (auto simp: org_handle_data_def Let_def switch_token_rotated valid_tokens outcome2_def
        split: sum.splits bool.splits)
next
  case True
  show ?thesis
  proof (cases "page_parts data")
    case (Inl e)
    with True s show ?thesis by (simp add: org_handle_data_def outcome2_def)
  next
    case (Inr parts)
    obtain repos has_next_page c where parts: "parts = (repos, has_next_page, c)"
      by (cases parts)
    show ?thesis
    proof (cases "py_truthy repos")
      case False
      with True Inr parts s show ?thesis
        by (simp add: org_handle_data_def Let_def outcome2_def)
    next
      case t: True
      show ?thesis
      proof (cases "py_iter repos")
        case (Inl e)
        with t True Inr parts s show ?thesis
          by (simp add: org_handle_data_def Let_def outcome2_def)
      next
        case items: (Inr items)
        from process_repos_script_only [OF v s, of org_name items "repo_details st"]
        show ?thesis
        proof (cases rule: outcome2_eq_cases)
          case none
          with t True Inr parts items show ?thesis
            by (simp add: org_handle_data_def Let_def)
        next
          case (some x rows1 w1 v1)
          with t True Inr parts items show ?thesis
            by (cases x) (simp_all add: org_handle_data_def Let_def outcome2_def)
        qed
      qed
    qed
  qed
qed

lemma org_after_same_step:
  "valid w \<Longrightarrow> valid v \<Longrightarrow> script w = script v \<Longrightarrow>
     same_step (org_after org_name (x, st, w)) (org_after org_name (x, st, v))"
  by (auto simp: org_after_valid valid_rotated valid_tokens split: sum.splits ctl.splits)

lemma org_handle_data_valid:
  "valid w \<Longrightarrow> org_handle_data org_name data st w = Some (x, st', w') \<Longrightarrow> valid w'"
  using org_handle_data_inv [OF kept_True] by blast

lemma org_iter_script_only:
  assumes "valid w" and "valid v" and "script w = script v"
  shows "(org_iter org_name st w = None \<and> org_iter org_name st v = None)
       \<or> (\<exists>a b. org_iter org_name st w = Some a \<and> org_iter org_name st v = Some b
              \<and> same_step a b)"
proof (cases "script w")
  case Nil
  with assms show ?thesis by (simp add: org_iter_empty)
next
  case (Cons r rs)
  with assms have sv: "script v = r # rs" by simp
  let ?pw = "posted RepositoriesQuery (org_variables org_name st) w"
  let ?pv = "posted RepositoriesQuery (org_variables org_name st) v"
  have p: "valid ?pw" "valid ?pv" "script ?pw = script ?pv"
    using assms by simp_all
  show ?thesis
  proof (cases r)
    case (Failed e)
    with Cons sv p show ?thesis
      by (simp add: org_iter_valid [OF assms(1) Cons] org_iter_valid [OF assms(2) sv]
          org_after_same_step)
  next
    case (Body data)
    from org_handle_data_script_only [OF p, of org_name data st]
    show ?thesis
    proof (cases rule: outcome2_eq_cases)
      case none
      with Body show ?thesis
        by (simp add: org_iter_valid [OF assms(1) Cons] org_iter_valid [OF assms(2) sv])
    next
      case (some x st2 w2 v2)
      from org_handle_data_valid [OF p(1) some(1)] org_handle_data_valid [OF p(2) some(2)]
      have "valid w2" "valid v2" .
      from org_after_same_step [OF this some(3)] some Body show ?thesis
        by (simp add: org_iter_valid [OF assms(1) Cons] org_iter_valid [OF assms(2) sv])
    qed
  qed
qed

lemma org_loop_script_only:
  "valid w \<Longrightarrow> valid v \<Longrightarrow> script w = script v \<Longrightarrow>
     outcome (org_loop org_name st w) = outcome (org_loop org_name st v)"
proof (induction "budget w" arbitrary: st w v rule: less_induct)
  case less
  from org_iter_script_only [OF less.prems, of org_name st]
  show ?case
  proof (elim disjE conjE exE)
    assume "org_iter org_name st w = None" "org_iter org_name st v = None"
    then show ?thesis
      by (simp add: org_loop.simps [of org_name st w] org_loop.simps [of org_name st v])
  next
    fix a b
    assume a: "org_iter org_name st w = Some a"
      and b: "org_iter org_name st v = Some b" and s: "same_step a b"
    show ?thesis
    proof (cases a)
      case (Exit st1 w1)
      with s obtain v1 where "b = Exit st1 v1" "script w1 = script v1"
        by (cases b) auto
      with a b Exit show ?thesis
        by (simp add: org_loop.simps [of org_name st w] org_loop.simps [of org_name st v]
            outcome_def)
    next
      case (Again st1 w1)
      with s obtain v1 where b1: "b = Again st1 v1" and
        r: "valid w1" "valid v1" "script w1 = script v1"
        by (cases b) auto
      from a Again have "budget w1 < budget w" by (simp add: org_iter_budget)
      from less.hyps [OF this r] a b Again b1 show ?thesis
        by (simp add: org_loop.simps [of org_name st w] org_loop.simps [of org_name st v])
    next
      case (Raise e w1)
      with s show ?thesis by simp
    qed
  qed
qed

section \<open>Soft failures\<close>

lemma pr_iter_requests:
  assumes "valid w" and "script w = r # rs" and "pr_iter org_name repo_name st w = Some it"
  shows "requests (iter_world it)
       = requests (posted PullRequestsQuery (pr_variables org_name repo_name st) w)"
proof -
  let ?p = "posted PullRequestsQuery (pr_variables org_name repo_name st) w"
  have a: "requests (iter_world (pr_after org_name repo_name (x, st2, w2))) = requests w2"
    if "valid w2" for x st2 w2
    using that by (auto simp: pr_after_valid split: sum.splits ctl.splits)
  have vp: "valid ?p" using assms(1) by simp
  show ?thesis
  proof (cases r)
    case (Failed e)
    with assms have "it = pr_after org_name repo_name (Inl e, st, ?p)"
      by (simp add: pr_iter_valid)
    then show ?thesis by (simp add: a [OF vp])
  next
    case (Body data)
    obtain x st2 w2 where h: "pr_handle_data org_name repo_name data st ?p = (x, st2, w2)"
      by (cases "pr_handle_data org_name repo_name data st ?p") auto
    from pr_handle_data_valid [OF vp h] pr_handle_data_frame [OF h] a [of w2 x st2]
    have "requests (iter_world (pr_after org_name repo_name (x, st2, w2))) = requests ?p"
      by simp
    moreover from assms Body h have "it = pr_after org_name repo_name (x, st2, w2)"
      by (simp add: pr_iter_valid)
    ultimately show ?thesis by simp
  qed
qed

lemma org_iter_requests:
  assumes "valid w" and "script w = r # rs" and "org_iter org_name st w = Some it"
  shows "\<exists>later. requests (iter_world it)
       = requests (posted RepositoriesQuery (org_variables org_name st) w) @ later"
proof -
  from assms(1) have "token_index w < length (tokens w)" by (simp add: valid_def)
  from org_iter_posted [OF assms(3) this] post_valid [OF assms(1,2)]
  show ?thesis by (auto simp: advances_def)
qed

lemma org_handle_data_soft:
  "valid w \<Longrightarrow> soft_failure data errs \<Longrightarrow>
     org_handle_data org_name data st w =
       Some (Inr Continue, st,
        rotated (emit [LogError (GraphQLErrorsOrg org_name errs),
                       Print (GraphQLErrorsOrg org_name errs)] w))"
  by (cases data)
     (auto simp: org_handle_data_def Let_def switch_token_rotated valid_tokens)

lemma org_iter_soft:
  assumes "valid w" and "script w = Body data # rs" and "soft_failure data errs"
  shows "org_iter org_name st w =
     Some (Again st (rotated (emit
       [LogError (GraphQLErrorsOrg org_name errs), Print (GraphQLErrorsOrg org_name errs)]
       (posted RepositoriesQuery (org_variables org_name st) w))))"
  using assms(1,3)
  by (simp add: org_iter_valid [OF assms(1,2)] org_handle_data_soft org_after_valid
      valid_rotated valid_tokens)

lemma is_switch_org_messages [simp]: "\<not> is_switch (Print (GraphQLErrorsOrg g x))"
  by simp

text \<open>
  Claim C1. For every response that is a body with a top-level \<^verbatim>\<open>errors\<close> entry, in
  the pull-request loop and in the repository loop alike: the payload is logged and
  printed, \<open>switch_token\<close> runs once (the index moves to the next token), and the loop
  goes round with its counts, rows and cursor unchanged, so that the request sent next
  has the variables of the one that failed. What the loop returns, and what it leaves
  of the script, is what it returns on the script without the failed response.
\<close>

theorem soft_failure_retries_same_page:
  assumes "valid w" and "script w = Body data # rs" and "soft_failure data errs"
  shows "(\<exists>w'. pr_iter org_name repo_name st w = Some (Again st w')
            \<and> pr_loop org_name repo_name st w = pr_loop org_name repo_name st w'
            \<and> events w' = events w @
                 [LogError (GraphQLErrorsRepo repo_name org_name errs),
                  Print (GraphQLErrorsRepo repo_name org_name errs),
                  LogInfo (SwitchedToken (token_index w')),
                  Print (SwitchedToken (token_index w'))]
            \<and> token_index w' = (token_index w + 1) mod length (tokens w)
            \<and> rotations w' = rotations w + 1
            \<and> script w' = rs
            \<and> map variables (requests w')
                 = map variables (requests w) @ [pr_variables org_name repo_name st]
            \<and> (\<forall>it. rs \<noteq> [] \<and> pr_iter org_name repo_name st w' = Some it \<longrightarrow>
                  map variables (requests (iter_world it))
                    = map variables (requests w)
                      @ [pr_variables org_name repo_name st, pr_variables org_name repo_name st]))
       \<and> outcome (pr_loop org_name repo_name st w)
           = outcome (pr_loop org_name repo_name st (w\<lparr>script := rs\<rparr>))
       \<and> (\<exists>w'. org_iter org_name ost w = Some (Again ost w')
            \<and> org_loop org_name ost w = org_loop org_name ost w'
            \<and> events w' = events w @
                 [LogError (GraphQLErrorsOrg org_name errs),
                  Print (GraphQLErrorsOrg org_name errs),
                  LogInfo (SwitchedToken (token_index w')),
                  Print (SwitchedToken (token_index w'))]
            \<and> token_index w' = (token_index w + 1) mod length (tokens w)
            \<and> rotations w' = rotations w + 1
            \<and> script w' = rs
            \<and> map variables (requests w')
                 = map variables (requests w) @ [org_variables org_name ost]
            \<and> (\<forall>it. rs \<noteq> [] \<and> org_iter org_name ost w' = Some it \<longrightarrow>
                  (\<exists>later. map variables (requests (iter_world it))
                    = map variables (requests w)
                      @ [org_variables org_name ost, org_variables org_name ost] @ later)))
       \<and> outcome (org_loop org_name ost w)
           = outcome (org_loop org_name ost (w\<lparr>script := rs\<rparr>))"
proof -
  let ?pw = "rotated (emit [LogError (GraphQLErrorsRepo repo_name org_name errs),
                            Print (GraphQLErrorsRepo repo_name org_name errs)]
               (posted PullRequestsQuery (pr_variables org_name repo_name st) w))"
  let ?ow = "rotated (emit [LogError (GraphQLErrorsOrg org_name errs),
                            Print (GraphQLErrorsOrg org_name errs)]
               (posted RepositoriesQuery (org_variables org_name ost) w))"
  have vs: "valid (w\<lparr>script := rs\<rparr>)" using assms(1) by (simp add: valid_def)
  have t: "tokens w \<noteq> []" using assms(1) by (rule valid_tokens)
  have pit: "pr_iter org_name repo_name st w = Some (Again st ?pw)"
    by (rule pr_iter_soft [OF assms])
  have pl: "pr_loop org_name repo_name st w = pr_loop org_name repo_name st ?pw"
    by (simp add: pr_loop.simps [of org_name repo_name st w] pit)
  have pv: "valid ?pw" using t by (simp add: valid_rotated)
  have ps: "script ?pw = rs" using assms(2) by simp
  have pe: "events ?pw = events w @
                 [LogError (GraphQLErrorsRepo repo_name org_name errs),
                  Print (GraphQLErrorsRepo repo_name org_name errs),
                  LogInfo (SwitchedToken (token_index ?pw)),
                  Print (SwitchedToken (token_index ?pw))]"
    by (simp add: rotated_events)
  have pr: "map variables (requests ?pw)
              = map variables (requests w) @ [pr_variables org_name repo_name st]"
    by (simp add: posted_requests)
  have pn: "\<forall>it. rs \<noteq> [] \<and> pr_iter org_name repo_name st ?pw = Some it \<longrightarrow>
                  map variables (requests (iter_world it))
                    = map variables (requests w)
                      @ [pr_variables org_name repo_name st, pr_variables org_name repo_name st]"
  proof (intro allI impI)
    fix it
    assume a: "rs \<noteq> [] \<and> pr_iter org_name repo_name st ?pw = Some it"
    then obtain r2 rs2 where "script ?pw = r2 # rs2" using ps by (cases rs) auto
    moreover from a have "pr_iter org_name repo_name st ?pw = Some it" by simp
    ultimately have "requests (iter_world it)
        = requests (posted PullRequestsQuery (pr_variables org_name repo_name st) ?pw)"
      using pv by (rule pr_iter_requests [rotated])
    with pr
    show "map variables (requests (iter_world it))
            = map variables (requests w)
              @ [pr_variables org_name repo_name st, pr_variables org_name repo_name st]"
      by (simp add: posted_requests)
  qed
  have po: "outcome (pr_loop org_name repo_name st w)
           = outcome (pr_loop org_name repo_name st (w\<lparr>script := rs\<rparr>))"
    using pr_loop_script_only [OF pv vs, of org_name repo_name st] ps pl by simp
  have oit: "org_iter org_name ost w = Some (Again ost ?ow)"
    by (rule org_iter_soft [OF assms])
  have ol: "org_loop org_name ost w = org_loop org_name ost ?ow"
    by (simp add: org_loop.simps [of org_name ost w] oit)
  have ov: "valid ?ow" using t by (simp add: valid_rotated)
  have os: "script ?ow = rs" using assms(2) by simp
  have oe: "events ?ow = events w @
                 [LogError (GraphQLErrorsOrg org_name errs),
                  Print (GraphQLErrorsOrg org_name errs),
                  LogInfo (SwitchedToken (token_index ?ow)),
                  Print (SwitchedToken (token_index ?ow))]"
    by (simp add: rotated_events)
  have or: "map variables (requests ?ow)
              = map variables (requests w) @ [org_variables org_name ost]"
    by (simp add: posted_requests)
  have on: "\<forall>it. rs \<noteq> [] \<and> org_iter org_name ost ?ow = Some it \<longrightarrow>
                  (\<exists>later. map variables (requests (iter_world it))
                    = map variables (requests w)
                      @ [org_variables org_name ost, org_variables org_name ost] @ later)"
  proof (intro allI impI)
    fix it
    assume a: "rs \<noteq> [] \<and> org_iter org_name ost ?ow = Some it"
    then obtain r2 rs2 where "script ?ow = r2 # rs2" using os by (cases rs) auto
    moreover from a have "org_iter org_name ost ?ow = Some it" by simp
    ultimately have "\<exists>later. requests (iter_world it)
         = requests (posted RepositoriesQuery (org_variables org_name ost) ?ow) @ later"
      using ov by (rule org_iter_requests [rotated])
    then obtain later where
      "requests (iter_world it)
         = requests (posted RepositoriesQuery (org_variables org_name ost) ?ow) @ later"
      by blast
    with or have "map variables (requests (iter_world it))
            = map variables (requests w)
              @ [org_variables org_name ost, org_variables org_name ost] @ map variables later"
      by (simp add: posted_requests)
    then show "\<exists>later. map variables (requests (iter_world it))
                    = map variables (requests w)
                      @ [org_variables org_name ost, org_variables org_name ost] @ later"
      by blast
  qed
  have oo: "outcome (org_loop org_name ost w)
           = outcome (org_loop org_name ost (w\<lparr>script := rs\<rparr>))"
    using org_loop_script_only [OF ov vs, of org_name ost] os ol by simp
  have p: "\<exists>w'. pr_iter org_name repo_name st w = Some (Again st w')
            \<and> pr_loop org_name repo_name st w = pr_loop org_name repo_name st w'
            \<and> events w' = events w @
                 [LogError (GraphQLErrorsRepo repo_name org_name errs),
                  Print (GraphQLErrorsRepo repo_name org_name errs),
                  LogInfo (SwitchedToken (token_index w')),
                  Print (SwitchedToken (token_index w'))]
            \<and> token_index w' = (token_index w + 1) mod length (tokens w)
            \<and> rotations w' = rotations w + 1
            \<and> script w' = rs
            \<and> map variables (requests w')
                 = map variables (requests w) @ [pr_variables org_name repo_name st]
            \<and> (\<forall>it. rs \<noteq> [] \<and> pr_iter org_name repo_name st w' = Some it \<longrightarrow>
                  map variables (requests (iter_world it))
                    = map variables (requests w)
                      @ [pr_variables org_name repo_name st, pr_variables org_name repo_name st])"
    apply (rule exI [of _ ?pw])
    apply (intro conjI)
           apply (rule pit)
          apply (rule pl)
         apply (rule pe)
        apply simp
       apply (simp add: rotations_emit)
      apply (rule ps)
     apply (rule pr)
    apply (rule pn)
    done
  have o: "\<exists>w'. org_iter org_name ost w = Some (Again ost w')
            \<and> org_loop org_name ost w = org_loop org_name ost w'
            \<and> events w' = events w @
                 [LogError (GraphQLErrorsOrg org_name errs),
                  Print (GraphQLErrorsOrg org_name errs),
                  LogInfo (SwitchedToken (token_index w')),
                  Print (SwitchedToken (token_index w'))]
            \<and> token_index w' = (token_index w + 1) mod length (tokens w)
            \<and> rotations w' = rotations w + 1
            \<and> script w' = rs
            \<and> map variables (requests w')
                 = map variables (requests w) @ [org_variables org_name ost]
            \<and> (\<forall>it. rs \<noteq> [] \<and> org_iter org_name ost w' = Some it \<longrightarrow>
                  (\<exists>later. map variables (requests (iter_world it))
                    = map variables (requests w)
                      @ [org_variables org_name ost, org_variables org_name ost] @ later))"
    apply (rule exI [of _ ?ow])
    apply (intro conjI)
           apply (rule oit)
          apply (rule ol)
         apply (rule oe)
        apply simp
       apply (simp add: rotations_emit)
      apply (rule os)
     apply (rule or)
    apply (rule on)
    done
  from p po o oo show ?thesis by (intro conjI)
qed

theorem soft_failure_retries_same_page_witness:
  "valid (initial_world [''t0'', ''t1'']
      [Body (JObj [(''errors'', JList [JStr ''rate limited''])]),
       Body (repo_page [JObj [(''name'', JStr ''a'')]] False JNull),
       Body (pr_page [''OPEN''] False JNull)])
   \<and> soft_failure (JObj [(''errors'', JList [JStr ''rate limited''])])
        (JList [JStr ''rate limited''])
   \<and> (\<exists>w'. org_iter ''org'' \<lparr>repo_details = [], org_cursor = JNull\<rparr>
          (initial_world [''t0'', ''t1'']
             [Body (JObj [(''errors'', JList [JStr ''rate limited''])]),
              Body (repo_page [JObj [(''name'', JStr ''a'')]] False JNull),
              Body (pr_page [''OPEN''] False JNull)])
          = Some (Again \<lparr>repo_details = [], org_cursor = JNull\<rparr> w')
        \<and> token_index w' = 1 \<and> rotations w' = 1
        \<and> map variables (requests w') = [[(''org'', JStr ''org''), (''cursor'', JNull)]])
   \<and> outcome (org_loop ''org'' \<lparr>repo_details = [], org_cursor = JNull\<rparr>
        (initial_world [''t0'', ''t1'']
           [Body (JObj [(''errors'', JList [JStr ''rate limited''])]),
            Body (repo_page [JObj [(''name'', JStr ''a'')]] False JNull),
            Body (pr_page [''OPEN''] False JNull)]))
       = Some (Inr [[(''Repository Name'', JStr ''a''), (''Visibility'', JStr ''Public''),
                     (''Size (KB)'', JStr ''N/A''), (''Default Branch'', JStr ''N/A''),
                     (''Total Commits'', JInt 0), (''Last Pusher'', JStr ''N/A''),
                     (''Open Pull Requests'', JInt 1), (''Closed Pull Requests'', JInt 0),
                     (''Open Issues'', JInt 0), (''Closed Issues'', JInt 0),
                     (''Languages'', JStr []), (''Total Releases'', JInt 0),
                     (''Total Tags'', JInt 0), (''Last Pushed At'', JStr ''N/A''),
                     (''Last Updated At'', JStr ''N/A''), (''Archived'', JStr ''No'')]], [])
   \<and> valid (initial_world [''t0'', ''t1'']
      [Body (JObj [(''errors'', JList [JStr ''rate limited''])]),
       Body (pr_page [''OPEN''] False JNull)])
   \<and> outcome (pr_loop ''org'' (JStr ''a'') \<lparr>open_count = 0, closed_count = 0, cursor = JNull\<rparr>
        (initial_world [''t0'', ''t1'']
           [Body (JObj [(''errors'', JList [JStr ''rate limited''])]),
            Body (pr_page [''OPEN''] False JNull)]))
       = Some (Inr (1, 0), [])"
proof -
  let ?soft = "JObj [(''errors'', JList [JStr ''rate limited''])]"
  let ?errs = "JList [JStr ''rate limited'']"
  let ?sim = "(JObj [(''name'', JStr ''a'')], [], [''OPEN'']) :: sim_repo"
  let ?ors = "[Body (repo_page [JObj [(''name'', JStr ''a'')]] False JNull),
               Body (pr_page [''OPEN''] False JNull)]"
  let ?prs = "[Body (pr_page [''OPEN''] False JNull)]"
  let ?wo = "initial_world [''t0'', ''t1''] (Body ?soft # ?ors)"
  let ?wp = "initial_world [''t0'', ''t1''] (Body ?soft # ?prs)"
  let ?ost = "\<lparr>repo_details = [], org_cursor = JNull\<rparr>"
  let ?pst = "\<lparr>open_count = 0, closed_count = 0, cursor = JNull\<rparr>"
  let ?row = "[(''Repository Name'', JStr ''a''), (''Visibility'', JStr ''Public''),
          (''Size (KB)'', JStr ''N/A''), (''Default Branch'', JStr ''N/A''),
          (''Total Commits'', JInt 0), (''Last Pusher'', JStr ''N/A''),
          (''Open Pull Requests'', JInt 1), (''Closed Pull Requests'', JInt 0),
          (''Open Issues'', JInt 0), (''Closed Issues'', JInt 0), (''Languages'', JStr []),
          (''Total Releases'', JInt 0), (''Total Tags'', JInt 0),
          (''Last Pushed At'', JStr ''N/A''), (''Last Updated At'', JStr ''N/A''),
          (''Archived'', JStr ''No'')]"
  have vo: "valid ?wo" and vp: "valid ?wp" by (simp_all add: valid_def initial_world_def)
  have so: "script ?wo = Body ?soft # ?ors" and sp: "script ?wp = Body ?soft # ?prs"
    by (simp_all add: initial_world_def)
  have sf: "soft_failure ?soft ?errs" by simp
  have z: "token_index ?wo = 0" "length (tokens ?wo) = 2" "rotations ?wo = 0" "requests ?wo = []"
    by (simp_all add: initial_world_def rotations_def)
  note to = soft_failure_retries_same_page [OF vo so sf,
      where org_name = "''org''" and ost = ?ost]
  from conjunct1 [OF conjunct2 [OF conjunct2 [OF to]]]
  obtain w' where "org_iter ''org'' ?ost ?wo = Some (Again ?ost w')"
    "token_index w' = (token_index ?wo + 1) mod length (tokens ?wo)"
    "rotations w' = rotations ?wo + 1"
    "map variables (requests w') = map variables (requests ?wo) @ [org_variables ''org'' ?ost]"
    by blast
  then have a: "\<exists>w'. org_iter ''org'' ?ost ?wo = Some (Again ?ost w')
        \<and> token_index w' = 1 \<and> rotations w' = 1
        \<and> map variables (requests w') = [[(''org'', JStr ''org''), (''cursor'', JNull)]]"
    unfolding z by (auto simp: org_variables_def)
  have v2: "valid (?wo\<lparr>script := ?ors\<rparr>)" by (simp add: valid_def initial_world_def)
  have s2: "script (?wo\<lparr>script := ?ors\<rparr>) = org_listing [] [?sim] False @ []"
    by (simp add: org_listing_def page_script_def repo_head_named pr_listing_def)
  have r: "sim_rows [?sim] = [?row]"
    by (simp add: sim_rows_Cons repo_head_named repo_tail_named listed_states_def
        spec_open_def spec_closed_or_merged_def)
  have "\<forall>p \<in> set ([] :: (sim_repo list \<times> json) list).
          fst p \<noteq> [] \<and> (\<forall>s \<in> set (fst p). null_or_object (fst s))"
    "\<forall>s \<in> set [?sim]. null_or_object (fst s)" "False \<longrightarrow> [?sim] = []"
    by simp_all
  from org_loop_listing [OF v2 this s2, of "''org''" ?ost] r
  have "outcome (org_loop ''org'' ?ost (?wo\<lparr>script := ?ors\<rparr>)) = Some (Inr [?row], [])"
    by (auto simp: outcome_def)
  with conjunct2 [OF conjunct2 [OF conjunct2 [OF to]]]
  have b: "outcome (org_loop ''org'' ?ost ?wo) = Some (Inr [?row], [])" by simp
  note tp = soft_failure_retries_same_page [OF vp sp sf,
      where org_name = "''org''" and repo_name = "JStr ''a''" and st = ?pst]
  have v3: "valid (?wp\<lparr>script := ?prs\<rparr>)" by (simp add: valid_def initial_world_def)
  have "script (?wp\<lparr>script := ?prs\<rparr>) = pr_listing [] [''OPEN''] @ []"
    by (simp add: pr_listing_def)
  from pr_loop_listing [OF v3 this, of "''org''" "JStr ''a''" ?pst]
  have "outcome (pr_loop ''org'' (JStr ''a'') ?pst (?wp\<lparr>script := ?prs\<rparr>))
          = Some (Inr (1, 0), [])"
    by (auto simp: outcome_def listed_states_def spec_open_def spec_closed_or_merged_def)
  with conjunct1 [OF conjunct2 [OF tp]]
  have c: "outcome (pr_loop ''org'' (JStr ''a'') ?pst ?wp) = Some (Inr (1, 0), [])"
    by simp
  from vo vp sf a b c show ?thesis by blast
qed

end
